theory Spec2Isabelle
  imports Complex_Main
begin

section \<open>Strings\<close>

text \<open>
  Python strings are modelled as \<^typ>\<open>string\<close> (lists of 8-bit characters); the
  helpers below are the string methods the crawler calls, on ASCII text.
\<close>

definition lower_char :: "char \<Rightarrow> char" where
  "lower_char c =
     (case map_of (zip ''ABCDEFGHIJKLMNOPQRSTUVWXYZ'' ''abcdefghijklmnopqrstuvwxyz'') c of
        None \<Rightarrow> c
      | Some d \<Rightarrow> d)"

definition lower :: "string \<Rightarrow> string" where
  "lower s = map lower_char s"

definition startswith :: "string \<Rightarrow> string \<Rightarrow> bool" where
  "startswith s p = (take (length p) s = p)"

definition endswith :: "string \<Rightarrow> string \<Rightarrow> bool" where
  "endswith s p = (length p \<le> length s \<and> drop (length s - length p) s = p)"

text \<open>\<open>str_in p s\<close> is Python's \<^verbatim>\<open>p in s\<close> on strings.\<close>

fun str_in :: "string \<Rightarrow> string \<Rightarrow> bool" where
  "str_in p [] = (p = [])"
| "str_in p (c # cs) = (startswith (c # cs) p \<or> str_in p cs)"

definition digit_char :: "nat \<Rightarrow> char" where
  "digit_char d = ''0123456789'' ! d"

fun str_nat :: "nat \<Rightarrow> string" where
  "str_nat n = (if n < 10 then [digit_char n] else str_nat (n div 10) @ [digit_char (n mod 10)])"

declare str_nat.simps [simp del]

text \<open>\<open>str_int i\<close> is what an f-string prints for the integer \<open>i\<close>.\<close>

definition str_int :: "int \<Rightarrow> string" where
  "str_int i = (if i < 0 then CHR ''-'' # str_nat (nat (- i)) else str_nat (nat i))"

section \<open>The fetcher\<close>

text \<open>
  A Python exception that travels up the call stack, out of the fetcher or out of a
  library call of the crawler: its class name (\<^verbatim>\<open>type(e).__name__\<close>) and its
  message (\<^verbatim>\<open>str(e)\<close>), which is what the crawler prints of it.
\<close>

datatype py_exn = PyExn string string

type_synonym headers = "string \<rightharpoonup> string"

text \<open>
  What one \<^verbatim>\<open>session.get\<close> attempt can do inside the \<^verbatim>\<open>try\<close> block of
  \<^verbatim>\<open>fetch_url_content\<close>: deliver a response (status, reason, decoded text, headers),
  or raise. The exceptions are classified by the \<^verbatim>\<open>except\<close> clause that catches
  them, in the order of the source; the string carried is \<^verbatim>\<open>type(e).__name__\<close>, and
  for a \<^verbatim>\<open>ClientResponseError\<close> its status and message. The last clause is
  \<^verbatim>\<open>except Exception\<close>; what lies outside that hierarchy, such as the cancellation
  of the running task from outside, is not an outcome of an attempt here.
\<close>

datatype fetch_exn =
    TimeoutError
  | ClientResponseError int string
  | ClientConnectionError string
  | ClientError string
  | OtherException string

datatype attempt_outcome =
    Response int string string headers
  | Raises fetch_exn

text \<open>
  A session is the network as the crawler sees it: the outcome of attempt number \<open>n\<close>
  at fetching a URL with a given user agent.
\<close>

type_synonym session = "string \<Rightarrow> string \<Rightarrow> nat \<Rightarrow> attempt_outcome"

text \<open>
  The result of one pass through the body of the retry loop: the \<^verbatim>\<open>return\<close> of the
  \<^verbatim>\<open>try\<close> block, or the values the handler leaves in \<^verbatim>\<open>status_code_for_error\<close>
  and \<^verbatim>\<open>error_message\<close>, and whether it executed \<^verbatim>\<open>break\<close>.
\<close>

datatype loop_ctl =
    Return int string headers
  | Failed int string bool

fun on_exception :: "fetch_exn \<Rightarrow> loop_ctl" where
  "on_exception TimeoutError = Failed 408 ''Request Timeout'' False"
| "on_exception (ClientResponseError st m) =
     Failed st (''HTTP Error: '' @ str_int st @ '' '' @ m)
       (400 \<le> st \<and> st < 500 \<and> st \<noteq> 408 \<and> st \<noteq> 429)"
| "on_exception (ClientConnectionError nm) =
     Failed 503 (''Client Connection Error: '' @ nm) False"
| "on_exception (ClientError nm) = Failed 503 (''Client Error: '' @ nm) False"
| "on_exception (OtherException nm) = Failed 500 (''Generic Fetch Error: '' @ nm) False"

text \<open>
  \<^verbatim>\<open>response.raise_for_status()\<close> raises \<^verbatim>\<open>ClientResponseError\<close> for a status of
  400 or more, with the reason phrase as message; otherwise the response is returned.
\<close>

fun try_attempt :: "attempt_outcome \<Rightarrow> loop_ctl" where
  "try_attempt (Response st reason content hdrs) =
     (if 400 \<le> st then on_exception (ClientResponseError st reason)
      else Return st content hdrs)"
| "try_attempt (Raises e) = on_exception e"

text \<open>
  The two lines after the handlers, which no \<^verbatim>\<open>try\<close> block encloses:
  \<^verbatim>\<open>sleep_duration = (backoff_base_ms / 1000) * (2 ** attempt)\<close> and
  \<^verbatim>\<open>await asyncio.sleep(sleep_duration)\<close>. The division of the two integers gives
  the nearest float and raises \<^verbatim>\<open>OverflowError\<close> when the quotient rounds beyond
  the largest float, that is when its absolute value reaches
  \<open>2^1024 - 2^970\<close>. The product converts the integer \<^verbatim>\<open>2 ** attempt\<close> to a float,
  which raises \<^verbatim>\<open>OverflowError\<close> from \<^verbatim>\<open>attempt = 1024\<close> on. A product of two
  floats that rounds beyond the largest float is \<^verbatim>\<open>inf\<close>, and
  \<^verbatim>\<open>asyncio.sleep(inf)\<close> never completes; a sleep of zero or less, also of
  \<^verbatim>\<open>-inf\<close>, returns at once. Inside the range of the floats the duration is
  taken over the reals, without the rounding.
\<close>

definition float_overflow_bound :: real where
  "float_overflow_bound = 2 ^ 1024 - 2 ^ 970"

datatype sleep_outcome =
    Wakes real
  | NeverWakes
  | SleepRaises py_exn

definition backoff_sleep :: "int \<Rightarrow> nat \<Rightarrow> sleep_outcome" where
  "backoff_sleep b attempt =
     (if float_overflow_bound \<le> \<bar>real_of_int b / 1000\<bar> then
        SleepRaises (PyExn ''OverflowError'' ''integer division result too large for a float'')
      else if 1024 \<le> attempt then
        SleepRaises (PyExn ''OverflowError'' ''int too large to convert to float'')
      else if float_overflow_bound \<le> real_of_int b / 1000 * 2 ^ attempt then NeverWakes
      else Wakes (real_of_int b / 1000 * 2 ^ attempt))"

text \<open>
  How a call of \<^verbatim>\<open>fetch_url_content\<close> ends: it returns a triple of status, text
  and headers; or an exception leaves it; or it never returns, asleep for ever.
\<close>

datatype fetch_result =
    Reply "int \<times> string \<times> headers"
  | Raised py_exn
  | NeverReturns

text \<open>
  The observable trace of a fetch: the attempts made, and the sleeps that were taken
  and ended, with their duration in seconds.
\<close>

datatype fetch_event = Attempt nat | Sleep real

text \<open>
  The \<^verbatim>\<open>for attempt in range(retry_limit + 1)\<close> loop, over the attempt numbers still
  to run, carrying \<^verbatim>\<open>status_code_for_error\<close> and \<^verbatim>\<open>error_message\<close>. The empty
  list is the end of the loop, which falls through to the last \<^verbatim>\<open>return\<close> of the
  function, as \<^verbatim>\<open>break\<close> does.
\<close>

fun fetch_loop ::
  "session \<Rightarrow> string \<Rightarrow> string \<Rightarrow> int \<Rightarrow> int \<Rightarrow> nat list \<Rightarrow> int \<Rightarrow> string
     \<Rightarrow> fetch_result \<times> fetch_event list" where
  "fetch_loop ses url ua rl b [] sc msg =
     (Reply (sc, msg @ '' (for '' @ url @ '')'', Map.empty), [])"
| "fetch_loop ses url ua rl b (a # rest) sc msg =
     (case try_attempt (ses url ua a) of
        Return st content hdrs \<Rightarrow> (Reply (st, content, hdrs), [Attempt a])
      | Failed sc' msg' brk \<Rightarrow>
          if brk then (Reply (sc', msg' @ '' (for '' @ url @ '')'', Map.empty), [Attempt a])
          else if int a < rl then
            (case backoff_sleep b a of
               SleepRaises ex \<Rightarrow> (Raised ex, [Attempt a])
             | NeverWakes \<Rightarrow> (NeverReturns, [Attempt a])
             | Wakes d \<Rightarrow>
                 (case fetch_loop ses url ua rl b rest sc' msg' of
                    (r, tr) \<Rightarrow> (r, Attempt a # Sleep d # tr)))
          else
            (Reply (sc', msg' @ '' (after '' @ str_int (rl + 1) @ '' attempts for '' @ url @ '')'',
                    Map.empty),
             [Attempt a]))"

definition fetch_run ::
  "session \<Rightarrow> string \<Rightarrow> string \<Rightarrow> int \<Rightarrow> int \<Rightarrow> fetch_result \<times> fetch_event list" where
  "fetch_run ses url ua rl b =
     fetch_loop ses url ua rl b [0..<nat (rl + 1)] 500 ''Unknown fetch error''"

definition fetch_url_content ::
  "session \<Rightarrow> string \<Rightarrow> string \<Rightarrow> int \<Rightarrow> int \<Rightarrow> fetch_result" where
  "fetch_url_content ses url ua rl b = fst (fetch_run ses url ua rl b)"

definition fetch_trace ::
  "session \<Rightarrow> string \<Rightarrow> string \<Rightarrow> int \<Rightarrow> int \<Rightarrow> fetch_event list" where
  "fetch_trace ses url ua rl b = snd (fetch_run ses url ua rl b)"

text \<open>
  The two failure returns of \<^verbatim>\<open>fetch_url_content\<close>, as a function of what the last
  pass through the loop body left behind; used to state what the loop returns.
\<close>

fun final_reply :: "string \<Rightarrow> int \<Rightarrow> loop_ctl \<Rightarrow> int \<times> string \<times> headers" where
  "final_reply url rl (Return st content hdrs) = (st, content, hdrs)"
| "final_reply url rl (Failed sc msg brk) =
     (sc,
      msg @ (if brk then '' (for '' @ url @ '')''
             else '' (after '' @ str_int (rl + 1) @ '' attempts for '' @ url @ '')''),
      Map.empty)"

text \<open>The attempt number \<open>i\<close> followed by the sleep the source takes after it.\<close>

definition backoff_events :: "int \<Rightarrow> nat \<Rightarrow> fetch_event list" where
  "backoff_events b i = [Attempt i, Sleep (real_of_int b / 1000 * 2 ^ i)]"

text \<open>
  The outcomes after which the loop goes on to another attempt (when one is left): every
  exception, and every response of status 400 or more, except the 4xx statuses other
  than 408 and 429.
\<close>

fun retry_cause :: "attempt_outcome \<Rightarrow> bool" where
  "retry_cause (Response st reason content hdrs) = (500 \<le> st \<or> st = 408 \<or> st = 429)"
| "retry_cause (Raises TimeoutError) = True"
| "retry_cause (Raises (ClientResponseError st m)) =
     (\<not> (400 \<le> st \<and> st < 500) \<or> st = 408 \<or> st = 429)"
| "retry_cause (Raises (ClientConnectionError nm)) = True"
| "retry_cause (Raises (ClientError nm)) = True"
| "retry_cause (Raises (OtherException nm)) = True"

text \<open>
  The retry causes as the specification lists them: timeout, connection failure, a 5xx
  response, or 429.
\<close>

fun spec_retry_cause :: "attempt_outcome \<Rightarrow> bool" where
  "spec_retry_cause (Response st reason content hdrs) = ((500 \<le> st \<and> st < 600) \<or> st = 429)"
| "spec_retry_cause (Raises TimeoutError) = True"
| "spec_retry_cause (Raises (ClientResponseError st m)) = ((500 \<le> st \<and> st < 600) \<or> st = 429)"
| "spec_retry_cause (Raises (ClientConnectionError nm)) = True"
| "spec_retry_cause (Raises (ClientError nm)) = False"
| "spec_retry_cause (Raises (OtherException nm)) = False"

text \<open>
  A sufficient condition for every backoff of a fetch to be a sleep that ends: no
  retry at all, or at most 1024 retries and a longest delay,
  \<open>backoff_base_ms / 1000 \<times> 2 ^ (retry_limit - 1)\<close> seconds, within the range of the
  floats.
\<close>

definition backoff_in_range :: "int \<Rightarrow> int \<Rightarrow> bool" where
  "backoff_in_range rl b \<longleftrightarrow>
     rl \<le> 0
   \<or> (rl \<le> 1024 \<and> \<bar>real_of_int b / 1000\<bar> * 2 ^ nat (rl - 1) < float_overflow_bound)"

text \<open>
  What the loop does from attempt \<open>k\<close> on: it makes the attempts up to some \<open>n\<close>,
  each but the last failing with a retry cause and followed by a sleep that ends, and
  after attempt \<open>n\<close> it returns, or the backoff raises, or the sleep never ends.
\<close>

definition loop_ends_at ::
  "session \<Rightarrow> string \<Rightarrow> string \<Rightarrow> int \<Rightarrow> int \<Rightarrow> nat \<Rightarrow> nat \<Rightarrow> fetch_result \<Rightarrow> bool" where
  "loop_ends_at ses url ua rl b m n r \<longleftrightarrow>
     (r = Reply (final_reply url rl (try_attempt (ses url ua n)))
        \<and> (n < m \<longrightarrow> \<not> retry_cause (ses url ua n)))
   \<or> (n < m \<and> retry_cause (ses url ua n)
        \<and> (\<exists>ex. backoff_sleep b n = SleepRaises ex \<and> r = Raised ex))
   \<or> (n < m \<and> retry_cause (ses url ua n)
        \<and> backoff_sleep b n = NeverWakes \<and> r = NeverReturns)"

section \<open>The crawler\<close>

definition NON_HTML_EXTENSIONS :: "string list" where
  "NON_HTML_EXTENSIONS =
     [''.css'', ''.js'', ''.mjs'', ''.json'', ''.ts'', ''.jsx'', ''.tsx'',
      ''.png'', ''.jpg'', ''.jpeg'', ''.gif'', ''.svg'', ''.webp'', ''.ico'', ''.bmp'', ''.tiff'',
      ''.woff'', ''.woff2'', ''.ttf'', ''.eot'', ''.otf'',
      ''.pdf'', ''.doc'', ''.docx'', ''.xls'', ''.xlsx'', ''.ppt'', ''.pptx'',
      ''.xml'', ''.rss'', ''.atom'', ''.csv'', ''.txt'', ''.rtf'', ''.md'',
      ''.yaml'', ''.yml'', ''.ini'', ''.cfg'', ''.log'',
      ''.zip'', ''.tar'', ''.gz'', ''.rar'', ''.7z'',
      ''.mp4'', ''.mp3'', ''.avi'', ''.mov'', ''.wmv'', ''.flv'', ''.m4a'', ''.ogg'', ''.wav'',
      ''.exe'', ''.dmg'', ''.apk'', ''.bin'', ''.iso'', ''.img'',
      ''.map'', ''.webmanifest'', ''.appcache'', ''.webarchive'', ''.bak'',
      ''.sql'', ''.db'', ''.sqlite'',
      ''.php'', ''.asp'', ''.aspx'', ''.jsp'', ''.cgi'']"

text \<open>\<^verbatim>\<open>any(p.endswith(ext) for ext in NON_HTML_EXTENSIONS)\<close>\<close>

definition has_non_html_extension :: "string \<Rightarrow> bool" where
  "has_non_html_extension p = list_ex (endswith p) NON_HTML_EXTENSIONS"

text \<open>The named tuple that \<^verbatim>\<open>urlparse\<close> returns.\<close>

record parse_result =
  scheme :: string
  netloc :: string
  path :: string
  params :: string
  query :: string
  fragment :: string

text \<open>
  The libraries and the world outside the repository are parameters of the model: the
  network, \<^verbatim>\<open>urllib.parse\<close> (\<^verbatim>\<open>urlparse\<close> and \<^verbatim>\<open>urljoin\<close> raise
  \<^verbatim>\<open>ValueError\<close> on some inputs), the HTML parser (\<open>find_links html\<close> is the list of
  \<^verbatim>\<open>href\<close> values of \<^verbatim>\<open>BeautifulSoup(html, 'lxml').find_all('a', href=True)\<close>),
  the robots.txt parser (\<open>robots_can_fetch text agent url\<close> is \<^verbatim>\<open>can_fetch(agent, url)\<close>
  of a \<^verbatim>\<open>RobotFileParser\<close> that parsed \<open>text\<close>), and the two readings of the event
  loop's clock. Every theorem below holds for all of them.
\<close>

record env =
  net :: session
  urlparse :: "string \<Rightarrow> py_exn + parse_result"
  urlunparse :: "parse_result \<Rightarrow> string"
  urljoin :: "string \<Rightarrow> string \<Rightarrow> py_exn + string"
  find_links :: "string \<Rightarrow> py_exn + string list"
  robots_can_fetch :: "string \<Rightarrow> string \<Rightarrow> string \<Rightarrow> bool"
  clock_at_start :: real
  clock_at_end :: real

text \<open>
  The arguments of \<^verbatim>\<open>crawl\<close>. The progress observer is left at its default
  \<^verbatim>\<open>None\<close>; the interleavings that a suspending observer allows are covered by the
  granularity of the steps below.
\<close>

record crawl_args =
  root_url :: string
  max_depth :: int
  user_agent :: string
  respect_robots_txt :: bool
  max_concurrent_tasks :: int
  retry_limit :: int
  backoff_base_ms :: int

record crawl_result =
  html_contents :: "string \<rightharpoonup> string"
  errors :: "string \<rightharpoonup> string"
  total_bytes :: nat
  start_time :: real
  end_time :: real

definition elapsed_ms :: "'a crawl_result_scheme \<Rightarrow> real" where
  "elapsed_ms r =
     (if start_time r \<noteq> 0 \<and> end_time r \<noteq> 0 then (end_time r - start_time r) * 1000 else 0)"

text \<open>
  A running \<^verbatim>\<open>process_single_url\<close> task: its URL and depth, and where it stands.
  \<open>task_links = None\<close>: the fetch has not returned yet. \<open>task_links = Some hs\<close>: the
  page was stored and \<open>hs\<close> are the anchors that the \<^verbatim>\<open>for\<close> loop has still to visit.
\<close>

record task =
  task_url :: string
  task_depth :: int
  task_links :: "string list option"

text \<open>
  The state of one crawl: the \<^verbatim>\<open>CrawlResult\<close> under construction, extended with the
  local variables of \<^verbatim>\<open>crawl\<close> that the tasks share (\<open>queue\<close>, \<open>crawled_urls\<close>,
  \<open>active\<close> for \<^verbatim>\<open>active_processing_tasks\<close>) and three history variables that only
  record what happened: every item ever put on the queue, every URL for which a task
  was created, and the robots.txt URLs requested.
\<close>

record crawl_state = crawl_result +
  queue :: "(string \<times> int) list"
  crawled_urls :: "string set"
  active :: "task list"
  enqueued :: "(string \<times> int) list"
  dispatched :: "string list"
  robots_requests :: "string list"

type_synonym robots = "(string \<Rightarrow> bool) option"

text \<open>\<^verbatim>\<open>robots_parser and not robots_parser.can_fetch(user_agent, url)\<close>\<close>

definition robots_denies :: "robots \<Rightarrow> string \<Rightarrow> bool" where
  "robots_denies rp u = (case rp of None \<Rightarrow> False | Some can_fetch \<Rightarrow> \<not> can_fetch u)"

text \<open>
  One pass through the body of the \<^verbatim>\<open>for link_tag in ...\<close> loop of
  \<^verbatim>\<open>process_single_url\<close>, for the anchor \<open>href\<close> found on the page \<open>url\<close> at depth
  \<open>d\<close>; \<open>Inl\<close> is an exception that leaves the loop.
\<close>

definition process_link ::
  "env \<Rightarrow> string \<Rightarrow> robots \<Rightarrow> string \<Rightarrow> int \<Rightarrow> string \<Rightarrow> crawl_state \<Rightarrow> py_exn + crawl_state" where
  "process_link e base_netloc rp url d href s =
     (if href = [] \<or> startswith href ''mailto:'' \<or> startswith href ''tel:''
         \<or> startswith href ''javascript:'' then Inr s
      else
        case urljoin e url href of
          Inl ex \<Rightarrow> Inl ex
        | Inr absolute_link \<Rightarrow>
            (case urlparse e absolute_link of
               Inl ex \<Rightarrow> Inl ex
             | Inr parsed_link \<Rightarrow>
                 if has_non_html_extension (lower (path parsed_link)) then Inr s
                 else if netloc parsed_link = base_netloc
                         \<and> scheme parsed_link \<in> {''http'', ''https''} then
                   (let normalized_link = urlunparse e (parsed_link\<lparr>fragment := []\<rparr>) in
                    if robots_denies rp normalized_link then
                      Inr (s\<lparr>errors := (errors s)(normalized_link \<mapsto>
                                ''Skipped by robots.txt (discovered link)'')\<rparr>)
                    else if normalized_link \<notin> crawled_urls s then
                      Inr (s\<lparr>crawled_urls := insert normalized_link (crawled_urls s),
                             queue := queue s @ [(normalized_link, d + 1)],
                             enqueued := enqueued s @ [(normalized_link, d + 1)]\<rparr>)
                    else Inr s)
                 else Inr s))"

text \<open>The task at position \<open>i\<close> ends: it leaves \<^verbatim>\<open>active_processing_tasks\<close>.\<close>

definition finish_task :: "nat \<Rightarrow> crawl_state \<Rightarrow> crawl_state" where
  "finish_task i s = s\<lparr>active := take i (active s) @ drop (Suc i) (active s)\<rparr>"

text \<open>The \<^verbatim>\<open>except Exception\<close> handler of \<^verbatim>\<open>process_single_url\<close>.\<close>

fun processing_error :: "py_exn \<Rightarrow> string \<Rightarrow> crawl_state \<Rightarrow> crawl_state" where
  "processing_error (PyExn nm msg) url s =
     s\<lparr>errors := (errors s)(url \<mapsto> ''Processing Error: '' @ nm @ '' - '' @ msg)\<rparr>"

text \<open>
  \<^verbatim>\<open>process_single_url\<close> from the return of the fetch up to the start of the
  \<^verbatim>\<open>for\<close> loop, for the task at position \<open>i\<close>. The number of bytes added to
  \<^verbatim>\<open>total_bytes\<close> is the length of the string, its UTF-8 length for ASCII text.
\<close>

definition on_fetched ::
  "env \<Rightarrow> crawl_args \<Rightarrow> nat \<Rightarrow> task \<Rightarrow> int \<times> string \<times> headers \<Rightarrow> crawl_state \<Rightarrow> crawl_state" where
  "on_fetched e a i t reply s =
     (case reply of (status, html_content, response_headers) \<Rightarrow>
        (let content_type =
               lower (case response_headers ''Content-Type'' of None \<Rightarrow> [] | Some v \<Rightarrow> v)
         in
           if \<not> str_in ''text/html'' content_type then
             finish_task i
               (s\<lparr>errors := (errors s)(task_url t \<mapsto>
                     ''Skipped: Not HTML (Content-Type: '' @ content_type @ '')'')\<rparr>)
           else if status = 200 then
             (let s1 = s\<lparr>html_contents := (html_contents s)(task_url t \<mapsto> html_content),
                          total_bytes := total_bytes s + length html_content\<rparr>
              in
                if task_depth t < max_depth a then
                  (case find_links e html_content of
                     Inl ex \<Rightarrow> finish_task i (processing_error ex (task_url t) s1)
                   | Inr hrefs \<Rightarrow> s1\<lparr>active := (active s1)[i := t\<lparr>task_links := Some hrefs\<rparr>]\<rparr>)
                else finish_task i s1)
           else
             finish_task i
               (s\<lparr>errors := (errors s)(task_url t \<mapsto>
                     ''HTTP Error: '' @ str_int status @ '' - ''
                       @ (if html_content \<noteq> [] then html_content
                          else ''(No content returned for error)''))\<rparr>)))"

text \<open>
  The task at position \<open>i\<close> runs up to its next suspension point: the fetch returns,
  or the loop visits one more anchor, or the loop is over and the task ends. The call
  of the fetcher stands inside the \<^verbatim>\<open>try\<close> block of \<^verbatim>\<open>process_single_url\<close>, so
  an exception that leaves the fetcher reaches the \<^verbatim>\<open>except Exception\<close> handler; a
  task whose fetch never returns stays as it is.
\<close>

definition advance_task ::
  "env \<Rightarrow> crawl_args \<Rightarrow> string \<Rightarrow> robots \<Rightarrow> nat \<Rightarrow> crawl_state \<Rightarrow> crawl_state" where
  "advance_task e a base_netloc rp i s =
     (if i < length (active s) then
        (let t = active s ! i in
         case task_links t of
           None \<Rightarrow>
             (case fetch_url_content (net e) (task_url t) (user_agent a) (retry_limit a)
                     (backoff_base_ms a) of
                Reply reply \<Rightarrow> on_fetched e a i t reply s
              | Raised ex \<Rightarrow> finish_task i (processing_error ex (task_url t) s)
              | NeverReturns \<Rightarrow> s)
         | Some [] \<Rightarrow> finish_task i s
         | Some (href # hrefs) \<Rightarrow>
             (case process_link e base_netloc rp (task_url t) (task_depth t) href s of
                Inl ex \<Rightarrow> finish_task i (processing_error ex (task_url t) s)
              | Inr s' \<Rightarrow> s'\<lparr>active := (active s')[i := t\<lparr>task_links := Some hrefs\<rparr>]\<rparr>))
      else s)"

text \<open>
  One pass through the inner \<^verbatim>\<open>while not queue.empty() and
  len(active_processing_tasks) < max_concurrent_tasks\<close> loop of \<^verbatim>\<open>crawl\<close>; \<open>Inl\<close> is
  an exception, which leaves \<^verbatim>\<open>crawl\<close>. The semaphore has no field of its own: it
  is acquired only under this guard and released by every task that ends, so it counts
  the free places among \<^verbatim>\<open>max_concurrent_tasks\<close> and its acquire does not block.
\<close>

definition dispatch ::
  "env \<Rightarrow> crawl_args \<Rightarrow> robots \<Rightarrow> crawl_state \<Rightarrow> py_exn + crawl_state" where
  "dispatch e a rp s =
     (case queue s of
        [] \<Rightarrow> Inr s
      | (current_url, current_depth) # rest \<Rightarrow>
          if \<not> int (length (active s)) < max_concurrent_tasks a then Inr s
          else
            (let s1 = s\<lparr>queue := rest\<rparr> in
             if robots_denies rp current_url then
               Inr (s1\<lparr>errors := (errors s1)(current_url \<mapsto> ''Skipped by robots.txt'')\<rparr>)
             else
               case urlparse e current_url of
                 Inl ex \<Rightarrow> Inl ex
               | Inr parsed \<Rightarrow>
                   if has_non_html_extension (lower (path parsed)) then
                     Inr (s1\<lparr>errors := (errors s1)(current_url \<mapsto>
                            ''Skipped due to file extension: '' @ path parsed)\<rparr>)
                   else
                     Inr (s1\<lparr>active := active s1 @
                                 [\<lparr>task_url = current_url, task_depth = current_depth,
                                   task_links = None\<rparr>],
                              dispatched := dispatched s1 @ [current_url]\<rparr>)))"

text \<open>
  The crawl is cooperative: the coordinator and the tasks take turns at suspension
  points, in an order the event loop and the network decide. A schedule lists the
  turns; a turn that is not possible in the current state changes nothing.
\<close>

datatype action = Dispatch | Advance nat

fun step ::
  "env \<Rightarrow> crawl_args \<Rightarrow> string \<Rightarrow> robots \<Rightarrow> action \<Rightarrow> crawl_state \<Rightarrow> py_exn + crawl_state" where
  "step e a base_netloc rp Dispatch s = dispatch e a rp s"
| "step e a base_netloc rp (Advance i) s = Inr (advance_task e a base_netloc rp i s)"

fun run ::
  "env \<Rightarrow> crawl_args \<Rightarrow> string \<Rightarrow> robots \<Rightarrow> action list \<Rightarrow> crawl_state \<Rightarrow> py_exn + crawl_state" where
  "run e a base_netloc rp [] s = Inr s"
| "run e a base_netloc rp (x # xs) s =
     (case step e a base_netloc rp x s of
        Inl ex \<Rightarrow> Inl ex
      | Inr s' \<Rightarrow> run e a base_netloc rp xs s')"

definition robots_url_of :: "env \<Rightarrow> parse_result \<Rightarrow> string" where
  "robots_url_of e parsed_root_url =
     urlunparse e (parsed_root_url\<lparr>path := ''/robots.txt'', query := [], fragment := []\<rparr>)"

text \<open>
  The robots.txt block of \<^verbatim>\<open>crawl\<close>: one fetch with \<^verbatim>\<open>retry_limit=0\<close> and the
  default \<^verbatim>\<open>backoff_base_ms\<close> of the fetcher, inside a \<^verbatim>\<open>try\<close> block whose
  handler leaves \<^verbatim>\<open>robots_parser\<close> at \<^verbatim>\<open>None\<close>. With no retry the fetcher
  computes no backoff, so this fetch always returns a reply (lemma
  \<open>fetch_without_retry_replies\<close> below) and the last case cannot occur.
\<close>

definition load_robots :: "env \<Rightarrow> crawl_args \<Rightarrow> parse_result \<Rightarrow> robots" where
  "load_robots e a parsed_root_url =
     (if respect_robots_txt a then
        (case fetch_url_content (net e) (robots_url_of e parsed_root_url) (user_agent a) 0 300 of
           Reply (r_status, r_content, r_headers) \<Rightarrow>
             if r_status = 200 \<and> r_content \<noteq> [] then
               Some (robots_can_fetch e r_content (user_agent a))
             else None
         | Raised ex \<Rightarrow> None
         | NeverReturns \<Rightarrow> None)
      else None)"

definition invalid_root_result :: "env \<Rightarrow> crawl_args \<Rightarrow> crawl_state" where
  "invalid_root_result e a =
     \<lparr>html_contents = Map.empty,
      errors = [root_url a \<mapsto> ''Invalid root_url: Must be absolute.''],
      total_bytes = 0, start_time = clock_at_start e, end_time = clock_at_end e,
      queue = [], crawled_urls = {}, active = [], enqueued = [], dispatched = [],
      robots_requests = []\<rparr>"

definition init_state :: "env \<Rightarrow> crawl_args \<Rightarrow> parse_result \<Rightarrow> crawl_state" where
  "init_state e a parsed_root_url =
     \<lparr>html_contents = Map.empty, errors = Map.empty,
      total_bytes = 0, start_time = clock_at_start e, end_time = 0,
      queue = [(root_url a, 0)], crawled_urls = {root_url a}, active = [],
      enqueued = [(root_url a, 0)], dispatched = [],
      robots_requests =
        (if respect_robots_txt a then [robots_url_of e parsed_root_url] else [])\<rparr>"

text \<open>
  \<^verbatim>\<open>crawl\<close> under a schedule. \<open>None\<close>: the schedule ended while the queue or the
  set of running tasks was not empty, so the crawl has not returned. \<open>Some (Inl ex)\<close>:
  \<^verbatim>\<open>crawl\<close> raised. \<open>Some (Inr s)\<close>: it returned; the \<^verbatim>\<open>CrawlResult\<close> is the
  \<^typ>\<open>crawl_result\<close> part of \<open>s\<close>, the rest of \<open>s\<close> are the final values of
  the local and history variables.
\<close>

definition crawl :: "env \<Rightarrow> crawl_args \<Rightarrow> action list \<Rightarrow> (py_exn + crawl_state) option" where
  "crawl e a sched =
     (case urlparse e (root_url a) of
        Inl ex \<Rightarrow> Some (Inl ex)
      | Inr parsed_root_url \<Rightarrow>
          if scheme parsed_root_url = [] \<or> netloc parsed_root_url = [] then
            Some (Inr (invalid_root_result e a))
          else
            (case run e a (netloc parsed_root_url) (load_robots e a parsed_root_url) sched
                    (init_state e a parsed_root_url) of
               Inl ex \<Rightarrow> Some (Inl ex)
             | Inr s \<Rightarrow>
                 if queue s = [] \<and> active s = [] then Some (Inr (s\<lparr>end_time := clock_at_end e\<rparr>))
                 else None))"

text \<open>
  How \<^verbatim>\<open>active_processing_tasks\<close> changes when a task ends, and when a task moves on
  to its next anchor; both are stated for the proofs of the invariants.
\<close>

definition task_removed :: "task \<Rightarrow> task list \<Rightarrow> task list \<Rightarrow> bool" where
  "task_removed t xs ys \<longleftrightarrow>
     t \<in> set xs \<and> (\<forall>t' \<in> set ys. t' \<in> set xs)
   \<and> (distinct (map task_url xs) \<longrightarrow>
        distinct (map task_url ys) \<and> (\<forall>t' \<in> set ys. task_url t' \<noteq> task_url t))"

definition task_relinked :: "task \<Rightarrow> string list \<Rightarrow> task list \<Rightarrow> task list \<Rightarrow> bool" where
  "task_relinked t hs xs ys \<longleftrightarrow>
     t \<in> set xs \<and> map task_url ys = map task_url xs
   \<and> (\<forall>t' \<in> set ys. t' = t\<lparr>task_links := Some hs\<rparr> \<or> t' \<in> set xs)
   \<and> (distinct (map task_url xs) \<longrightarrow>
        (\<forall>t' \<in> set ys. t' = t\<lparr>task_links := Some hs\<rparr> \<or> (t' \<in> set xs \<and> task_url t' \<noteq> task_url t)))"

section \<open>Invariants of a crawl\<close>

text \<open>
  A link as the extractor enqueues it: the recomposition, with the fragment emptied, of
  a parsed URL on the crawl's host with scheme http or https.
\<close>

definition normalized_link :: "env \<Rightarrow> string \<Rightarrow> string \<Rightarrow> bool" where
  "normalized_link e base_netloc k \<longleftrightarrow>
     (\<exists>absolute_link parsed_link.
        urlparse e absolute_link = Inr parsed_link
      \<and> netloc parsed_link = base_netloc
      \<and> scheme parsed_link \<in> {''http'', ''https''}
      \<and> k = urlunparse e (parsed_link\<lparr>fragment := []\<rparr>))"

text \<open>
  Deduplication: the URLs of the tasks created so far and of the items still queued
  are pairwise different and all visited; so are the URLs ever enqueued; the running
  tasks have pairwise different URLs, each one dispatched.
\<close>

definition dedup_inv :: "crawl_state \<Rightarrow> bool" where
  "dedup_inv s \<longleftrightarrow>
     distinct (dispatched s @ map fst (queue s))
   \<and> (\<forall>u \<in> set (dispatched s). u \<in> crawled_urls s)
   \<and> (\<forall>x \<in> set (queue s). fst x \<in> crawled_urls s)
   \<and> distinct (map fst (enqueued s))
   \<and> (\<forall>x \<in> set (enqueued s). fst x \<in> crawled_urls s)
   \<and> (\<forall>u \<in> crawled_urls s. u \<in> fst ` set (enqueued s))
   \<and> distinct (map task_url (active s))
   \<and> (\<forall>t \<in> set (active s). task_url t \<in> set (dispatched s))"

text \<open>
  What keeps the two mappings apart: a stored page belongs to a task that was created,
  so it is visited, not queued, and allowed by robots.txt; an error entry belongs to a
  URL that robots.txt denies or whose handling is over.
\<close>

definition disjoint_inv :: "robots \<Rightarrow> crawl_state \<Rightarrow> bool" where
  "disjoint_inv rp s \<longleftrightarrow>
     (\<forall>t \<in> set (active s). \<not> robots_denies rp (task_url t)
        \<and> (task_links t = None \<longrightarrow> html_contents s (task_url t) = None))
   \<and> (\<forall>x \<in> set (queue s). html_contents s (fst x) = None)
   \<and> (\<forall>u. html_contents s u \<noteq> None \<longrightarrow> u \<in> crawled_urls s \<and> \<not> robots_denies rp u)
   \<and> (\<forall>u. errors s u \<noteq> None \<longrightarrow>
          robots_denies rp u
        \<or> (u \<in> crawled_urls s \<and> (\<forall>x \<in> set (queue s). fst x \<noteq> u)
              \<and> (\<forall>t \<in> set (active s). task_url t \<noteq> u)))
   \<and> (\<forall>u m. html_contents s u \<noteq> None \<and> errors s u = Some m
          \<longrightarrow> startswith m ''Processing Error: '')"

text \<open>
  Depth: every item ever enqueued has a depth between 0 and \<^verbatim>\<open>max_depth\<close>, the first
  one is the root at depth 0, and a task that is visiting anchors lies strictly below
  \<^verbatim>\<open>max_depth\<close>.
\<close>

definition depth_inv :: "crawl_args \<Rightarrow> crawl_state \<Rightarrow> bool" where
  "depth_inv a s \<longleftrightarrow>
     (\<forall>x \<in> set (enqueued s). 0 \<le> snd x \<and> snd x \<le> max_depth a)
   \<and> (\<forall>x \<in> set (queue s). x \<in> set (enqueued s))
   \<and> (\<forall>t \<in> set (active s). (task_url t, task_depth t) \<in> set (enqueued s)
        \<and> (task_links t \<noteq> None \<longrightarrow> task_depth t < max_depth a))
   \<and> (\<exists>rest. enqueued s = (root_url a, 0) # rest)"

text \<open>With \<^verbatim>\<open>max_depth = 0\<close> nothing but the root is ever touched.\<close>

definition root_only_inv :: "crawl_args \<Rightarrow> crawl_state \<Rightarrow> bool" where
  "root_only_inv a s \<longleftrightarrow>
     (\<forall>t \<in> set (active s). task_url t = root_url a \<and> task_links t = None \<and> 0 \<le> task_depth t)
   \<and> (\<forall>x \<in> set (queue s). fst x = root_url a \<and> 0 \<le> snd x)
   \<and> (\<forall>u. html_contents s u \<noteq> None \<longrightarrow> u = root_url a)
   \<and> (\<forall>u. errors s u \<noteq> None \<longrightarrow> u = root_url a)
   \<and> enqueued s = [(root_url a, 0)]"

text \<open>
  File extensions: a task is created only for a URL whose path has none of the
  extensions of the denylist, and pages are stored only for such tasks.
\<close>

definition extension_inv :: "env \<Rightarrow> crawl_state \<Rightarrow> bool" where
  "extension_inv e s \<longleftrightarrow>
     (\<forall>u \<in> set (dispatched s). \<exists>p. urlparse e u = Inr p
        \<and> \<not> has_non_html_extension (lower (path p)))
   \<and> (\<forall>t \<in> set (active s). task_url t \<in> set (dispatched s))
   \<and> (\<forall>u. html_contents s u \<noteq> None \<longrightarrow> u \<in> set (dispatched s))"

text \<open>
  Robots: no task runs and no page is stored for a URL that robots.txt denies, and the
  only error entries such a URL gets are the two robots messages.
\<close>

definition robots_inv :: "robots \<Rightarrow> crawl_state \<Rightarrow> bool" where
  "robots_inv rp s \<longleftrightarrow>
     (\<forall>t \<in> set (active s). \<not> robots_denies rp (task_url t))
   \<and> (\<forall>t \<in> set (active s). task_url t \<in> set (dispatched s))
   \<and> (\<forall>u \<in> set (dispatched s). \<not> robots_denies rp u)
   \<and> (\<forall>u. robots_denies rp u \<longrightarrow>
          html_contents s u = None
        \<and> (errors s u = None \<or> errors s u = Some ''Skipped by robots.txt''
            \<or> errors s u = Some ''Skipped by robots.txt (discovered link)''))"

text \<open>
  Keys: every URL that the crawl handles is the root URL as given or a normalized link.
\<close>

definition keys_inv :: "env \<Rightarrow> crawl_args \<Rightarrow> string \<Rightarrow> crawl_state \<Rightarrow> bool" where
  "keys_inv e a base_netloc s \<longleftrightarrow>
     (\<forall>x \<in> set (enqueued s). fst x = root_url a \<or> normalized_link e base_netloc (fst x))
   \<and> (\<forall>x \<in> set (queue s). fst x = root_url a \<or> normalized_link e base_netloc (fst x))
   \<and> (\<forall>t \<in> set (active s). task_url t = root_url a \<or> normalized_link e base_netloc (task_url t))
   \<and> (\<forall>u. html_contents s u \<noteq> None \<longrightarrow> u = root_url a \<or> normalized_link e base_netloc u)
   \<and> (\<forall>u. errors s u \<noteq> None \<longrightarrow> u = root_url a \<or> normalized_link e base_netloc u)"

text \<open>
  The claim's reading of a key: a URL that parses with a scheme, a host and an empty
  fragment.
\<close>

definition absolute_without_fragment :: "env \<Rightarrow> string \<Rightarrow> bool" where
  "absolute_without_fragment e k =
     (case urlparse e k of
        Inl ex \<Rightarrow> False
      | Inr p \<Rightarrow> scheme p \<noteq> [] \<and> netloc p \<noteq> [] \<and> fragment p = [])"

text \<open>
  The normalized form of a URL, as \<^verbatim>\<open>process_single_url\<close> computes it for a link:
  the URL is parsed and recomposed with the fragment emptied.
\<close>

definition normalize_url :: "env \<Rightarrow> string \<Rightarrow> py_exn + string" where
  "normalize_url e u =
     (case urlparse e u of
        Inl ex \<Rightarrow> Inl ex
      | Inr parsed \<Rightarrow> Inr (urlunparse e (parsed\<lparr>fragment := []\<rparr>)))"

text \<open>
  A property of \<^verbatim>\<open>urllib.parse\<close> that the model does not build in: a normalized link
  is its own normalized form.
\<close>

definition links_stay_normalized :: "env \<Rightarrow> bool" where
  "links_stay_normalized e \<longleftrightarrow>
     (\<forall>base_netloc k. normalized_link e base_netloc k \<longrightarrow> normalize_url e k = Inr k)"

text \<open>
  The variables of a crawl with a valid root after the turns of a schedule, whether or
  not the crawl is over by then; \<open>None\<close> when the root is invalid or \<^verbatim>\<open>crawl\<close> raised.
\<close>

definition crawl_state_after :: "env \<Rightarrow> crawl_args \<Rightarrow> action list \<Rightarrow> crawl_state option" where
  "crawl_state_after e a sched =
     (case urlparse e (root_url a) of
        Inl ex \<Rightarrow> None
      | Inr parsed_root_url \<Rightarrow>
          if scheme parsed_root_url = [] \<or> netloc parsed_root_url = [] then None
          else
            (case run e a (netloc parsed_root_url) (load_robots e a parsed_root_url) sched
                    (init_state e a parsed_root_url) of
               Inl ex \<Rightarrow> None
             | Inr s \<Rightarrow> Some s))"

section \<open>A small site for concrete runs\<close>

text \<open>
  One concrete environment, used to run the model on explicit inputs: the host
  \<^verbatim>\<open>a.com\<close> with a few pages, a robots.txt that disallows \<^verbatim>\<open>/private/\<close>, and the
  library functions tabulated on the strings that occur (each entry is what Python's
  \<^verbatim>\<open>urllib.parse\<close>, \<^verbatim>\<open>urllib.robotparser\<close> and the HTML parser return for that
  string).
\<close>

definition demo_page :: "string \<Rightarrow> string option" where
  "demo_page url =
     (if url = ''http://a.com/'' then Some ''<a href=/b>b</a>''
      else if url = ''http://a.com/#top'' then Some ''<a href=/b>b</a>''
      else if url = ''http://a.com/b'' then Some ''<a href=/ id=home>home</a>''
      else if url = ''http://a.com/img'' then Some ''<a href=/logo.png>logo</a>''
      else if url = ''http://a.com/priv'' then Some ''<a href=/private/x>x</a>''
      else if url = ''http://a.com/privimg'' then Some ''<a href=/private/logo.png>y</a>''
      else if url = ''http://a.com/bad'' then Some ''<a href=http://[>bad</a>''
      else None)"

definition demo_robots_txt :: string where
  "demo_robots_txt = ''User-agent: *'' @ [CHR 0x0A] @ ''Disallow: /private/''"

definition demo_net :: session where
  "demo_net url ua n =
     (if url = ''http://a.com/robots.txt'' then
        Response 200 ''OK'' demo_robots_txt [''Content-Type'' \<mapsto> ''text/plain'']
      else if url = ''http://a.com/accepted'' then
        Response 202 ''Accepted'' ''<p>later</p>'' [''Content-Type'' \<mapsto> ''text/html'']
      else
        case demo_page url of
          Some body \<Rightarrow> Response 200 ''OK'' body [''Content-Type'' \<mapsto> ''text/html; charset=utf-8'']
        | None \<Rightarrow> Response 404 ''Not Found'' [] Map.empty)"

definition demo_find_links :: "string \<Rightarrow> py_exn + string list" where
  "demo_find_links html =
     (if html = ''<a href=/b>b</a>'' then Inr [''/b'']
      else if html = ''<a href=/ id=home>home</a>'' then Inr [''/'']
      else if html = ''<a href=/logo.png>logo</a>'' then Inr [''/logo.png'']
      else if html = ''<a href=/private/x>x</a>'' then Inr [''/private/x'']
      else if html = ''<a href=/private/logo.png>y</a>'' then Inr [''/private/logo.png'']
      else if html = ''<a href=http://[>bad</a>'' then Inr [''http://['']
      else Inr [])"

definition demo_url :: "string \<Rightarrow> string \<Rightarrow> parse_result" where
  "demo_url p f =
     \<lparr>scheme = ''http'', netloc = ''a.com'', path = p, params = [], query = [], fragment = f\<rparr>"

definition demo_urlparse :: "string \<Rightarrow> py_exn + parse_result" where
  "demo_urlparse u =
     (if u = ''http://a.com/'' then Inr (demo_url ''/'' [])
      else if u = ''http://a.com/#top'' then Inr (demo_url ''/'' ''top'')
      else if u = ''http://a.com/b'' then Inr (demo_url ''/b'' [])
      else if u = ''http://a.com/img'' then Inr (demo_url ''/img'' [])
      else if u = ''http://a.com/priv'' then Inr (demo_url ''/priv'' [])
      else if u = ''http://a.com/privimg'' then Inr (demo_url ''/privimg'' [])
      else if u = ''http://a.com/bad'' then Inr (demo_url ''/bad'' [])
      else if u = ''http://a.com/missing'' then Inr (demo_url ''/missing'' [])
      else if u = ''http://a.com/accepted'' then Inr (demo_url ''/accepted'' [])
      else if u = ''http://a.com/logo.png'' then Inr (demo_url ''/logo.png'' [])
      else if u = ''http://a.com/private/x'' then Inr (demo_url ''/private/x'' [])
      else if u = ''http://a.com/private/logo.png'' then Inr (demo_url ''/private/logo.png'' [])
      else if u = ''http://['' then Inl (PyExn ''ValueError'' ''Invalid IPv6 URL'')
      else Inr \<lparr>scheme = [], netloc = [], path = u, params = [], query = [], fragment = []\<rparr>)"

definition demo_urljoin :: "string \<Rightarrow> string \<Rightarrow> py_exn + string" where
  "demo_urljoin base href =
     (if href = ''http://['' then Inl (PyExn ''ValueError'' ''Invalid IPv6 URL'')
      else if startswith href ''/'' then Inr (''http://a.com'' @ href)
      else Inr href)"

definition demo_urlunparse :: "parse_result \<Rightarrow> string" where
  "demo_urlunparse p =
     scheme p @ ''://'' @ netloc p @ path p
       @ (if params p = [] then [] else '';'' @ params p)
       @ (if query p = [] then [] else ''?'' @ query p)
       @ (if fragment p = [] then [] else ''#'' @ fragment p)"

definition demo_can_fetch :: "string \<Rightarrow> string \<Rightarrow> string \<Rightarrow> bool" where
  "demo_can_fetch text agent url =
     (\<not> (str_in ''Disallow: /private/'' text \<and> startswith url ''http://a.com/private/''))"

definition demo_env :: env where
  "demo_env =
     \<lparr>net = demo_net, urlparse = demo_urlparse, urlunparse = demo_urlunparse,
      urljoin = demo_urljoin, find_links = demo_find_links,
      robots_can_fetch = demo_can_fetch, clock_at_start = 10, clock_at_end = 12\<rparr>"

text \<open>The defaults of \<^verbatim>\<open>crawl\<close>, for a given root, depth and robots switch.\<close>

definition demo_args :: "string \<Rightarrow> int \<Rightarrow> bool \<Rightarrow> crawl_args" where
  "demo_args url depth robots =
     \<lparr>root_url = url, max_depth = depth, user_agent = ''DevBridgeBot/0.1'',
      respect_robots_txt = robots, max_concurrent_tasks = 10, retry_limit = 2,
      backoff_base_ms = 500\<rparr>"

text \<open>Reading the outcome of a run: whether \<^verbatim>\<open>crawl\<close> returned, and what.\<close>

definition completed :: "(py_exn + crawl_state) option \<Rightarrow> bool" where
  "completed x = (case x of Some (Inr s) \<Rightarrow> True | _ \<Rightarrow> False)"

definition returned :: "(py_exn + crawl_state) option \<Rightarrow> crawl_state" where
  "returned x = projr (the x)"

text \<open>
  Four sessions for the fetcher alone: one that times out, then gets a 503, then
  succeeds; one whose first response is a 408; one that always times out; one that
  always answers 503.
\<close>

definition flaky_net :: session where
  "flaky_net url ua n =
     (if n = 0 then Raises TimeoutError
      else if n = 1 then Response 503 ''Service Unavailable'' [] Map.empty
      else Response 200 ''OK'' ''<p>ok</p>'' [''Content-Type'' \<mapsto> ''text/html''])"

definition net_408 :: session where
  "net_408 url ua n =
     (if n = 0 then Response 408 ''Request Timeout'' [] Map.empty
      else Response 200 ''OK'' ''<p>ok</p>'' [''Content-Type'' \<mapsto> ''text/html''])"

definition dead_net :: session where
  "dead_net url ua n = Raises TimeoutError"

definition unavailable_net :: session where
  "unavailable_net url ua n = Response 503 ''Service Unavailable'' [] Map.empty"

text \<open>
  Runs of the crawler on this site, each with the defaults of \<^verbatim>\<open>crawl\<close> and a
  schedule in which the coordinator creates a task when it can and the task then runs
  to its end. \<open>crawl_cycle\<close>: the root page and page \<^verbatim>\<open>/b\<close> link to each other.
  \<open>crawl_root_only\<close>: \<^verbatim>\<open>max_depth = 0\<close>. \<open>crawl_one_level\<close>: \<^verbatim>\<open>max_depth = 1\<close>.
  \<open>crawl_bad_link\<close>: the root page has an anchor \<^verbatim>\<open>http://[\<close>, on which
  \<^verbatim>\<open>urljoin\<close> raises. \<open>crawl_image_link\<close>: the root page links to
  \<^verbatim>\<open>/logo.png\<close>. \<open>crawl_private_link\<close> and \<open>crawl_private_image\<close>: robots.txt
  is respected and the root page links to \<^verbatim>\<open>/private/x\<close>, or to
  \<^verbatim>\<open>/private/logo.png\<close>. \<open>crawl_root_fragment\<close>: the root URL carries a
  fragment. \<open>crawl_fragment_cycle\<close>: the root URL carries a fragment,
  \<^verbatim>\<open>max_depth = 2\<close>, and page \<^verbatim>\<open>/b\<close> links back to the root page.
  \<open>crawl_relative_root\<close>: the root URL has no scheme.
  \<open>fetching_missing\<close> and \<open>fetching_accepted\<close>: the states in which the task for
  a page that answers 404, or 202 with an HTML body, waits for its fetch.
\<close>

definition crawl_cycle :: "(py_exn + crawl_state) option" where
  "crawl_cycle =
     crawl demo_env (demo_args ''http://a.com/'' 2 False)
       [Dispatch, Advance 0, Advance 0, Advance 0, Dispatch, Advance 0, Advance 0, Advance 0]"

definition crawl_root_only :: "(py_exn + crawl_state) option" where
  "crawl_root_only = crawl demo_env (demo_args ''http://a.com/'' 0 False) [Dispatch, Advance 0]"

definition crawl_one_level :: "(py_exn + crawl_state) option" where
  "crawl_one_level =
     crawl demo_env (demo_args ''http://a.com/'' 1 False)
       [Dispatch, Advance 0, Advance 0, Advance 0, Dispatch, Advance 0]"

definition crawl_bad_link :: "(py_exn + crawl_state) option" where
  "crawl_bad_link =
     crawl demo_env (demo_args ''http://a.com/bad'' 1 False) [Dispatch, Advance 0, Advance 0]"

definition crawl_image_link :: "(py_exn + crawl_state) option" where
  "crawl_image_link =
     crawl demo_env (demo_args ''http://a.com/img'' 1 False)
       [Dispatch, Advance 0, Advance 0, Advance 0]"



definition crawl_root_fragment :: "(py_exn + crawl_state) option" where
  "crawl_root_fragment =
     crawl demo_env (demo_args ''http://a.com/#top'' 0 False) [Dispatch, Advance 0]"

definition crawl_fragment_cycle :: "(py_exn + crawl_state) option" where
  "crawl_fragment_cycle =
     crawl demo_env (demo_args ''http://a.com/#top'' 2 False)
       [Dispatch, Advance 0, Advance 0, Advance 0, Dispatch, Advance 0, Advance 0, Advance 0,
        Dispatch, Advance 0]"

definition crawl_relative_root :: "(py_exn + crawl_state) option" where
  "crawl_relative_root = crawl demo_env (demo_args ''a.com/page'' 1 True) []"

definition fetching_missing :: crawl_state where
  "fetching_missing =
     the (crawl_state_after demo_env (demo_args ''http://a.com/missing'' 1 False) [Dispatch])"

definition fetching_accepted :: crawl_state where
  "fetching_accepted =
     the (crawl_state_after demo_env (demo_args ''http://a.com/accepted'' 1 False) [Dispatch])"

section \<open>Properties of the fetcher\<close>

lemma try_attempt_cases:
  "(\<exists>st c h. try_attempt x = Return st c h \<and> \<not> retry_cause x)
   \<or> (\<exists>sc m. try_attempt x = Failed sc m True \<and> \<not> retry_cause x)
   \<or> (\<exists>sc m. try_attempt x = Failed sc m False \<and> retry_cause x)"
proof (cases x)
  case (Response st reason content hdrs)
  then show ?thesis by auto
next
  case (Raises e)
  then show ?thesis by (cases e) auto
qed

lemma backoff_sleep_Wakes:
  "backoff_sleep b k = Wakes d \<Longrightarrow> d = real_of_int b / 1000 * 2 ^ k"
  by (simp add: backoff_sleep_def split: if_splits)

lemma backoff_sleep_cases:
  "backoff_sleep b k = Wakes (real_of_int b / 1000 * 2 ^ k)
   \<or> backoff_sleep b k = NeverWakes
   \<or> (\<exists>ex. backoff_sleep b k = SleepRaises ex)"
  by (simp add: backoff_sleep_def)

lemma fetch_loop_last:
  "fetch_loop ses url ua (int m) b [m] sc msg
     = (Reply (final_reply url (int m) (try_attempt (ses url ua m))), [Attempt m])"
  by (cases "try_attempt (ses url ua m)") auto

lemma fetch_loop_stop:
  "\<not> retry_cause (ses url ua k) \<Longrightarrow>
   fetch_loop ses url ua rl b (k # rest) sc msg
     = (Reply (final_reply url rl (try_attempt (ses url ua k))), [Attempt k])"
  using try_attempt_cases [of "ses url ua k"] by auto

lemma fetch_loop_retry:
  assumes "retry_cause (ses url ua k)" "int k < rl"
    "backoff_sleep b k = Wakes (real_of_int b / 1000 * 2 ^ k)"
  shows "\<exists>sc' msg'. fetch_loop ses url ua rl b (k # rest) sc msg
     = (fst (fetch_loop ses url ua rl b rest sc' msg'),
        backoff_events b k @ snd (fetch_loop ses url ua rl b rest sc' msg'))"
proof -
  from try_attempt_cases [of "ses url ua k"] assms(1)
  obtain sc' msg' where "try_attempt (ses url ua k) = Failed sc' msg' False" by auto
  then have "fetch_loop ses url ua rl b (k # rest) sc msg
     = (fst (fetch_loop ses url ua rl b rest sc' msg'),
        backoff_events b k @ snd (fetch_loop ses url ua rl b rest sc' msg'))"
    using assms(2,3) by (simp add: backoff_events_def case_prod_beta)
  then show ?thesis by blast
qed

lemma fetch_loop_raises:
  assumes "retry_cause (ses url ua k)" "int k < rl" "backoff_sleep b k = SleepRaises ex"
  shows "fetch_loop ses url ua rl b (k # rest) sc msg = (Raised ex, [Attempt k])"
proof -
  from try_attempt_cases [of "ses url ua k"] assms(1)
  obtain sc' msg' where "try_attempt (ses url ua k) = Failed sc' msg' False" by auto
  then show ?thesis using assms(2,3) by simp
qed

lemma fetch_loop_never_wakes:
  assumes "retry_cause (ses url ua k)" "int k < rl" "backoff_sleep b k = NeverWakes"
  shows "fetch_loop ses url ua rl b (k # rest) sc msg = (NeverReturns, [Attempt k])"
proof -
  from try_attempt_cases [of "ses url ua k"] assms(1)
  obtain sc' msg' where "try_attempt (ses url ua k) = Failed sc' msg' False" by auto
  then show ?thesis using assms(2,3) by simp
qed

lemma fetch_loop_char:
  "k \<le> m \<Longrightarrow> rl = int m \<Longrightarrow>
   \<exists>n. k \<le> n \<and> n \<le> m
     \<and> snd (fetch_loop ses url ua rl b [k..<Suc m] sc msg)
         = concat (map (backoff_events b) [k..<n]) @ [Attempt n]
     \<and> (\<forall>i. k \<le> i \<and> i < n \<longrightarrow> retry_cause (ses url ua i))
     \<and> loop_ends_at ses url ua rl b m n (fst (fetch_loop ses url ua rl b [k..<Suc m] sc msg))"
proof (induction "m - k" arbitrary: k sc msg)
  case 0
  then have km: "k = m" by simp
  have l: "[k..<Suc m] = [m]" using km by simp
  show ?case
    unfolding l using fetch_loop_last [of ses url ua m b sc msg] 0(3) km
    by (intro exI [of _ m]) (auto simp: loop_ends_at_def)
next
  case (Suc d)
  then have lt: "k < m" by simp
  have l: "[k..<Suc m] = k # [Suc k..<Suc m]" using lt by (simp add: upt_conv_Cons)
  show ?case
  proof (cases "retry_cause (ses url ua k)")
    case False
    then show ?thesis
      unfolding l using lt fetch_loop_stop [of ses url ua k rl b "[Suc k..<Suc m]" sc msg]
      by (intro exI [of _ k]) (auto simp: loop_ends_at_def)
  next
    case True
    have klt: "int k < rl" using lt Suc(4) by simp
    from backoff_sleep_cases [of b k] show ?thesis
    proof (elim disjE exE)
      fix ex
      assume r: "backoff_sleep b k = SleepRaises ex"
      from fetch_loop_raises [of ses url ua k rl b ex "[Suc k..<Suc m]" sc msg, OF True klt r]
        r True lt
      show ?thesis unfolding l by (intro exI [of _ k]) (auto simp: loop_ends_at_def)
    next
      assume r: "backoff_sleep b k = NeverWakes"
      from fetch_loop_never_wakes [of ses url ua k rl b "[Suc k..<Suc m]" sc msg, OF True klt r]
        r True lt
      show ?thesis unfolding l by (intro exI [of _ k]) (auto simp: loop_ends_at_def)
    next
      assume w: "backoff_sleep b k = Wakes (real_of_int b / 1000 * 2 ^ k)"
      from fetch_loop_retry [of ses url ua k rl b "[Suc k..<Suc m]" sc msg, OF True klt w]
      obtain sc' msg' where st:
        "fetch_loop ses url ua rl b (k # [Suc k..<Suc m]) sc msg
           = (fst (fetch_loop ses url ua rl b [Suc k..<Suc m] sc' msg'),
              backoff_events b k @ snd (fetch_loop ses url ua rl b [Suc k..<Suc m] sc' msg'))"
        by blast
      have "d = m - Suc k" using Suc(2) by simp
      from Suc(1) [OF this, of sc' msg'] Suc(4) lt
      obtain n where n: "Suc k \<le> n" "n \<le> m"
        "snd (fetch_loop ses url ua rl b [Suc k..<Suc m] sc' msg')
           = concat (map (backoff_events b) [Suc k..<n]) @ [Attempt n]"
        "\<forall>i. Suc k \<le> i \<and> i < n \<longrightarrow> retry_cause (ses url ua i)"
        "loop_ends_at ses url ua rl b m n (fst (fetch_loop ses url ua rl b [Suc k..<Suc m] sc' msg'))"
        by auto
      have kn: "[k..<n] = k # [Suc k..<n]" using n(1) by (simp add: upt_conv_Cons)
      have all: "\<forall>i. k \<le> i \<and> i < n \<longrightarrow> retry_cause (ses url ua i)"
        using n(4) True by (metis Suc_leI le_neq_implies_less)
      have tr: "snd (fetch_loop ses url ua rl b [k..<Suc m] sc msg)
          = concat (map (backoff_events b) [k..<n]) @ [Attempt n]"
        unfolding l kn st using n(3) by simp
      have en: "loop_ends_at ses url ua rl b m n (fst (fetch_loop ses url ua rl b [k..<Suc m] sc msg))"
        unfolding l st using n(5) by simp
      show ?thesis
        using n(1,2) all tr en by (intro exI [of _ n]) simp
    qed
  qed
qed

lemma fetch_run_char:
  assumes "0 \<le> rl"
  shows "\<exists>n. n \<le> nat rl
     \<and> fetch_trace ses url ua rl b = concat (map (backoff_events b) [0..<n]) @ [Attempt n]
     \<and> (\<forall>i<n. retry_cause (ses url ua i))
     \<and> loop_ends_at ses url ua rl b (nat rl) n (fetch_url_content ses url ua rl b)"
proof -
  have r: "rl = int (nat rl)" using assms by simp
  have s: "nat (rl + 1) = Suc (nat rl)" using assms by simp
  from fetch_loop_char [of 0 "nat rl" rl ses url ua b 500 "''Unknown fetch error''", OF _ r]
  show ?thesis unfolding fetch_run_def fetch_url_content_def fetch_trace_def s by auto
qed

lemma fetch_run_negative:
  "rl < 0 \<Longrightarrow>
   fetch_run ses url ua rl b
     = (Reply (500, ''Unknown fetch error (for '' @ url @ '')'', Map.empty), [])"
  by (simp add: fetch_run_def)

text \<open>A fetch that returns: the reply is that of its last attempt.\<close>

lemma fetch_reply_char:
  assumes "0 \<le> rl" "fetch_url_content ses url ua rl b = Reply r"
  shows "\<exists>n. n \<le> nat rl
     \<and> fetch_trace ses url ua rl b = concat (map (backoff_events b) [0..<n]) @ [Attempt n]
     \<and> (\<forall>i<n. retry_cause (ses url ua i))
     \<and> r = final_reply url rl (try_attempt (ses url ua n))
     \<and> (n < nat rl \<longrightarrow> \<not> retry_cause (ses url ua n))"
proof -
  from fetch_run_char [OF assms(1), of ses url ua b]
  obtain n where n: "n \<le> nat rl"
    "fetch_trace ses url ua rl b = concat (map (backoff_events b) [0..<n]) @ [Attempt n]"
    "\<forall>i<n. retry_cause (ses url ua i)"
    "loop_ends_at ses url ua rl b (nat rl) n (fetch_url_content ses url ua rl b)"
    by blast
  from n(4) have "r = final_reply url rl (try_attempt (ses url ua n))
     \<and> (n < nat rl \<longrightarrow> \<not> retry_cause (ses url ua n))"
    unfolding assms(2) loop_ends_at_def by auto
  then show ?thesis using n(1,2,3) by blast
qed

text \<open>
  When every backoff that the loop can reach is a sleep that ends, the fetch returns a
  reply.
\<close>

lemma fetch_loop_replies:
  assumes "\<forall>k \<in> set ks. int k < rl \<longrightarrow> (\<exists>d. backoff_sleep b k = Wakes d)"
  shows "\<exists>r. fst (fetch_loop ses url ua rl b ks sc msg) = Reply r"
  using assms
proof (induction ks arbitrary: sc msg)
  case Nil
  then show ?case by simp
next
  case (Cons k ks)
  show ?case
  proof (cases "try_attempt (ses url ua k)")
    case (Return st c h)
    then show ?thesis by simp
  next
    case (Failed sc' msg' brk)
    show ?thesis
    proof (cases "\<not> brk \<and> int k < rl")
      case False
      then show ?thesis using Failed by auto
    next
      case True
      then obtain d where d: "backoff_sleep b k = Wakes d" using Cons(2) by auto
      from Cons(1) [of sc' msg'] Cons(2)
      obtain r where "fst (fetch_loop ses url ua rl b ks sc' msg') = Reply r" by auto
      then show ?thesis using Failed True d by (cases r) (auto simp: case_prod_beta)
    qed
  qed
qed

lemma backoff_in_range_Wakes:
  assumes "backoff_in_range rl b" "int k < rl"
  shows "backoff_sleep b k = Wakes (real_of_int b / 1000 * 2 ^ k)"
proof -
  let ?q = "real_of_int b / 1000"
  from assms have rl: "0 < rl" "rl \<le> 1024"
    and bd: "\<bar>?q\<bar> * 2 ^ nat (rl - 1) < float_overflow_bound"
    unfolding backoff_in_range_def by auto
  have k: "k \<le> nat (rl - 1)" using assms(2) by simp
  have k1024: "k < 1024" using assms(2) rl(2) by simp
  have p: "(2::real) ^ k \<le> 2 ^ nat (rl - 1)" using k by (simp add: power_increasing)
  have "\<bar>?q\<bar> * 2 ^ k \<le> \<bar>?q\<bar> * 2 ^ nat (rl - 1)"
    using p by (simp add: mult_left_mono)
  from this bd have lt: "\<bar>?q\<bar> * 2 ^ k < float_overflow_bound" by (rule le_less_trans)
  have "\<bar>?q\<bar> * 1 \<le> \<bar>?q\<bar> * 2 ^ k" by (intro mult_left_mono) simp_all
  from this lt have "\<bar>?q\<bar> * 1 < float_overflow_bound" by (rule le_less_trans)
  then have q: "\<bar>?q\<bar> < float_overflow_bound" by simp
  have "?q * 2 ^ k \<le> \<bar>?q\<bar> * 2 ^ k" by (intro mult_right_mono) simp_all
  from this lt have pr: "?q * 2 ^ k < float_overflow_bound" by (rule le_less_trans)
  show ?thesis using q pr k1024 by (simp add: backoff_sleep_def)
qed

lemma fetch_replies_in_range:
  assumes "backoff_in_range rl b"
  shows "\<exists>r. fetch_url_content ses url ua rl b = Reply r"
  unfolding fetch_url_content_def fetch_run_def
  by (rule fetch_loop_replies) (use backoff_in_range_Wakes [OF assms] in blast)

lemma fetch_without_retry_replies:
  "\<exists>r. fetch_url_content ses url ua 0 b = Reply r"
  by (rule fetch_replies_in_range) (simp add: backoff_in_range_def)

lemma try_attempt_Return:
  "try_attempt x = Return st c h \<Longrightarrow> \<exists>reason. x = Response st reason c h \<and> st < 400"
proof (cases x)
  case (Response st' reason content hdrs)
  assume "try_attempt x = Return st c h"
  then show ?thesis using Response by (auto split: if_splits)
next
  case (Raises ex)
  assume "try_attempt x = Return st c h"
  then show ?thesis using Raises by (cases ex) auto
qed

lemma fetch_headers_from_response:
  assumes "fetch_url_content ses url ua rl b = Reply (st, c, h)" "h \<noteq> Map.empty"
  shows "\<exists>n reason. ses url ua n = Response st reason c h \<and> st < 400"
proof (cases "rl < 0")
  case True
  then show ?thesis
    using assms fetch_run_negative [of rl ses url ua b] by (simp add: fetch_url_content_def)
next
  case False
  then have "0 \<le> rl" by simp
  from fetch_reply_char [OF this assms(1)]
  obtain n where n: "(st, c, h) = final_reply url rl (try_attempt (ses url ua n))"
    by blast
  show ?thesis
  proof (cases "try_attempt (ses url ua n)")
    case (Return st' c' h')
    then have "try_attempt (ses url ua n) = Return st c h" using n by simp
    from try_attempt_Return [OF this] show ?thesis by blast
  next
    case (Failed sc m brk)
    then show ?thesis using n assms(2) by simp
  qed
qed

text \<open>
  Claim C2 does not hold of the code. The backoff is computed after the handlers, outside
  the \<^verbatim>\<open>try\<close> block. When the first attempt fails with a retry cause, a retry is
  left, and \<^verbatim>\<open>backoff_base_ms / 1000\<close> lies beyond the range of the floats, the
  division raises \<^verbatim>\<open>OverflowError\<close>, and the exception leaves
  \<^verbatim>\<open>fetch_url_content\<close> after that single attempt: no triple is returned.
\<close>

theorem fetch_raises_when_backoff_overflows:
  assumes "retry_cause (ses url ua 0)" and "0 < rl"
    and "float_overflow_bound \<le> \<bar>real_of_int b / 1000\<bar>"
  shows "fetch_url_content ses url ua rl b
           = Raised (PyExn ''OverflowError'' ''integer division result too large for a float'')
       \<and> fetch_trace ses url ua rl b = [Attempt 0]"
proof -
  have l: "[0..<nat (rl + 1)] = 0 # [1..<nat (rl + 1)]"
    using assms(2) by (simp add: upt_conv_Cons)
  have b: "backoff_sleep b 0
      = SleepRaises (PyExn ''OverflowError'' ''integer division result too large for a float'')"
    using assms(3) by (simp add: backoff_sleep_def)
  have "int 0 < rl" using assms(2) by simp
  from fetch_loop_raises [of ses url ua 0 rl b _ "[1..<nat (rl + 1)]" 500 "''Unknown fetch error''",
      OF assms(1) this b]
  show ?thesis by (simp add: fetch_url_content_def fetch_trace_def fetch_run_def l)
qed

text \<open>
  The session \<open>unavailable_net\<close> always answers 503; with \<^verbatim>\<open>retry_limit = 1\<close> and
  \<^verbatim>\<open>backoff_base_ms = 10 ** 400\<close> the fetch raises after its first attempt.
\<close>

theorem fetch_raises_when_backoff_overflows_witness:
  "retry_cause (unavailable_net ''http://a.com/'' ''DevBridgeBot/0.1'' 0)
   \<and> float_overflow_bound \<le> \<bar>real_of_int (10 ^ 400) / 1000\<bar>
   \<and> fetch_url_content unavailable_net ''http://a.com/'' ''DevBridgeBot/0.1'' 1 (10 ^ 400)
       = Raised (PyExn ''OverflowError'' ''integer division result too large for a float'')
   \<and> fetch_trace unavailable_net ''http://a.com/'' ''DevBridgeBot/0.1'' 1 (10 ^ 400)
       = [Attempt 0]"
proof -
  have r: "retry_cause (unavailable_net ''http://a.com/'' ''DevBridgeBot/0.1'' 0)"
    by (simp add: unavailable_net_def)
  have o: "float_overflow_bound \<le> \<bar>real_of_int (10 ^ 400) / 1000\<bar>"
    by (simp add: float_overflow_bound_def)
  from fetch_raises_when_backoff_overflows [of unavailable_net "''http://a.com/''"
      "''DevBridgeBot/0.1''" 1 "10 ^ 400", OF r _ o]
  show ?thesis using r o by simp
qed

text \<open>
  Claim C3, as amended. When the longest backoff lies within the range of the floats,
  \<^verbatim>\<open>fetch_url_content\<close> returns. Whenever it returns, it has made the attempts
  \<open>0, \<dots>, n\<close> for some \<open>n \<le> retry_limit\<close>, so at most \<^verbatim>\<open>retry_limit\<close> attempts
  after the first (and none at all when \<^verbatim>\<open>retry_limit\<close> is negative); after attempt
  \<open>i < n\<close>, which is before retry number \<open>i\<close>, it has slept
  \<open>backoff_base_ms / 1000 \<times> 2^i\<close> seconds; every attempt that is followed by a retry
  failed with a retry cause, which is a timeout, a connection or other client error, an
  unclassified exception, or a response of status 408, 429 or at least 500; and it
  stops before the limit only on an outcome that is no retry cause (a success, or a 4xx
  response other than 408 and 429), returning at once.
\<close>

theorem fetch_retry_schedule:
  "(backoff_in_range rl b \<longrightarrow> (\<exists>r. fetch_url_content ses url ua rl b = Reply r))
   \<and> (\<forall>r. fetch_url_content ses url ua rl b = Reply r \<longrightarrow>
        (rl < 0 \<longrightarrow> fetch_trace ses url ua rl b = [])
      \<and> (0 \<le> rl \<longrightarrow>
          (\<exists>n. n \<le> nat rl
            \<and> fetch_trace ses url ua rl b
                = concat (map (\<lambda>i. [Attempt i, Sleep (real_of_int b / 1000 * 2 ^ i)]) [0..<n])
                    @ [Attempt n]
            \<and> (\<forall>i<n. retry_cause (ses url ua i))
            \<and> (n < nat rl \<longrightarrow> \<not> retry_cause (ses url ua n)))))"
proof -
  have 1: "\<exists>r. fetch_url_content ses url ua rl b = Reply r" if "backoff_in_range rl b"
    using that by (rule fetch_replies_in_range)
  have 2: "fetch_trace ses url ua rl b = []" if "rl < 0"
    using that by (simp add: fetch_trace_def fetch_run_negative)
  have 3: "\<exists>n. n \<le> nat rl
            \<and> fetch_trace ses url ua rl b
                = concat (map (\<lambda>i. [Attempt i, Sleep (real_of_int b / 1000 * 2 ^ i)]) [0..<n])
                    @ [Attempt n]
            \<and> (\<forall>i<n. retry_cause (ses url ua i))
            \<and> (n < nat rl \<longrightarrow> \<not> retry_cause (ses url ua n))"
    if "fetch_url_content ses url ua rl b = Reply r" "0 \<le> rl" for r
    using fetch_reply_char [OF that(2,1)] unfolding backoff_events_def [abs_def] by blast
  show ?thesis using 1 2 3 by blast
qed

text \<open>
  The session \<open>flaky_net\<close> times out, then answers 503, then 200: three attempts, with
  sleeps of 0.5 and 1 second for \<^verbatim>\<open>backoff_base_ms = 500\<close>.
\<close>

theorem fetch_retry_schedule_witness:
  "backoff_in_range 2 500
   \<and> fetch_url_content flaky_net ''http://a.com/'' ''DevBridgeBot/0.1'' 2 500
       = Reply (200, ''<p>ok</p>'', [''Content-Type'' \<mapsto> ''text/html''])
   \<and> fetch_trace flaky_net ''http://a.com/'' ''DevBridgeBot/0.1'' 2 500
       = [Attempt 0, Sleep (1 / 2), Attempt 1, Sleep 1, Attempt 2]
   \<and> (\<exists>n. n \<le> nat 2
     \<and> fetch_trace flaky_net ''http://a.com/'' ''DevBridgeBot/0.1'' 2 500
         = concat (map (\<lambda>i. [Attempt i, Sleep (real_of_int 500 / 1000 * 2 ^ i)]) [0..<n]) @ [Attempt n]
     \<and> (\<forall>i<n. retry_cause (flaky_net ''http://a.com/'' ''DevBridgeBot/0.1'' i))
     \<and> (n < nat 2 \<longrightarrow> \<not> retry_cause (flaky_net ''http://a.com/'' ''DevBridgeBot/0.1'' n)))"
proof -
  have rg: "backoff_in_range 2 500"
    by (simp add: backoff_in_range_def float_overflow_bound_def)
  have s0: "backoff_sleep 500 0 = Wakes (1 / 2)"
    by (simp add: backoff_sleep_def float_overflow_bound_def)
  have s1: "backoff_sleep 500 (Suc 0) = Wakes 1"
    by (simp add: backoff_sleep_def float_overflow_bound_def)
  have re: "fetch_url_content flaky_net ''http://a.com/'' ''DevBridgeBot/0.1'' 2 500
       = Reply (200, ''<p>ok</p>'', [''Content-Type'' \<mapsto> ''text/html''])"
    by (simp add: fetch_url_content_def fetch_run_def flaky_net_def upt_rec s0 s1)
  have tr: "fetch_trace flaky_net ''http://a.com/'' ''DevBridgeBot/0.1'' 2 500
       = [Attempt 0, Sleep (1 / 2), Attempt 1, Sleep 1, Attempt 2]"
    by (simp add: fetch_trace_def fetch_run_def flaky_net_def upt_rec s0 s1)
  show ?thesis
    using rg re tr
      fetch_retry_schedule [of 2 500 flaky_net "''http://a.com/''" "''DevBridgeBot/0.1''"]
    by simp
qed

text \<open>
  Claim C3 as stated fails: a response of status 408 is a 4xx response other than 429,
  and none of the causes the claim lists, yet the fetcher sleeps and tries again.
\<close>

theorem retry_on_408_counterexample:
  "\<not> spec_retry_cause (net_408 ''http://a.com/'' ''DevBridgeBot/0.1'' 0)
   \<and> net_408 ''http://a.com/'' ''DevBridgeBot/0.1'' 0 = Response 408 ''Request Timeout'' [] Map.empty
   \<and> fetch_trace net_408 ''http://a.com/'' ''DevBridgeBot/0.1'' 2 500
       = [Attempt 0, Sleep (1 / 2), Attempt 1]
   \<and> fetch_url_content net_408 ''http://a.com/'' ''DevBridgeBot/0.1'' 2 500
       = Reply (200, ''<p>ok</p>'', [''Content-Type'' \<mapsto> ''text/html''])"
proof -
  have s0: "backoff_sleep 500 0 = Wakes (1 / 2)"
    by (simp add: backoff_sleep_def float_overflow_bound_def)
  show ?thesis
    by (simp add: fetch_trace_def fetch_url_content_def fetch_run_def net_408_def upt_rec s0)
qed

section \<open>The transitions of a crawl\<close>

lemma task_removed_nth:
  assumes "i < length xs"
  shows "task_removed (xs ! i) xs (take i xs @ drop (Suc i) xs)"
proof -
  have 1: "xs ! i \<in> set xs" using assms by simp
  have 2: "\<forall>t' \<in> set (take i xs @ drop (Suc i) xs). t' \<in> set xs"
    by (auto dest: in_set_takeD in_set_dropD)
  note whole = id_take_nth_drop [OF assms, symmetric]
  have 3: "distinct (map task_url (take i xs @ drop (Suc i) xs))
      \<and> (\<forall>t' \<in> set (take i xs @ drop (Suc i) xs). task_url t' \<noteq> task_url (xs ! i))"
    if d: "distinct (map task_url xs)"
  proof -
    have "distinct (map task_url (take i xs @ (xs ! i) # drop (Suc i) xs))"
      unfolding whole by (rule d)
    then have dist: "distinct (map task_url (take i xs @ drop (Suc i) xs))"
      and notin: "task_url (xs ! i) \<notin> task_url ` set (take i xs @ drop (Suc i) xs)"
      by auto
    show ?thesis
    proof (intro conjI ballI)
      show "distinct (map task_url (take i xs @ drop (Suc i) xs))" by (rule dist)
    next
      fix t' assume "t' \<in> set (take i xs @ drop (Suc i) xs)"
      then have "task_url t' \<in> task_url ` set (take i xs @ drop (Suc i) xs)" by (rule imageI)
      with notin show "task_url t' \<noteq> task_url (xs ! i)" by auto
    qed
  qed
  show ?thesis unfolding task_removed_def using 1 2 3 by blast
qed

lemma task_relinked_nth:
  assumes "i < length xs"
  shows "task_relinked (xs ! i) hs xs (xs[i := (xs ! i)\<lparr>task_links := Some hs\<rparr>])"
proof -
  let ?t = "xs ! i" and ?y = "(xs ! i)\<lparr>task_links := Some hs\<rparr>"
  have 1: "?t \<in> set xs" using assms by simp
  have "(map task_url xs)[i := map task_url xs ! i] = map task_url xs"
    by (rule list_update_id)
  then have 2: "map task_url (xs[i := ?y]) = map task_url xs"
    using assms by (simp add: map_update)
  have 3: "\<forall>t' \<in> set (xs[i := ?y]). t' = ?y \<or> t' \<in> set xs"
    using set_update_subset_insert [of xs i ?y] by auto
  have 4: "\<forall>t' \<in> set (xs[i := ?y]). t' = ?y \<or> (t' \<in> set xs \<and> task_url t' \<noteq> task_url ?t)"
    if d: "distinct (map task_url xs)"
  proof
    fix t' assume "t' \<in> set (xs[i := ?y])"
    then obtain j where j: "j < length xs" "t' = (xs[i := ?y]) ! j"
      by (auto simp: in_set_conv_nth)
    show "t' = ?y \<or> (t' \<in> set xs \<and> task_url t' \<noteq> task_url ?t)"
    proof (cases "j = i")
      case True
      then show ?thesis using j by simp
    next
      case False
      then have "t' = xs ! j" using j by simp
      moreover have "task_url (xs ! j) \<noteq> task_url (xs ! i)"
        using d False j(1) assms by (simp add: distinct_conv_nth)
      ultimately show ?thesis using j(1) by simp
    qed
  qed
  show ?thesis unfolding task_relinked_def using 1 2 3 4 by blast
qed

lemma task_removed_mem: "task_removed t xs ys \<Longrightarrow> t' \<in> set ys \<Longrightarrow> t' \<in> set xs"
  by (simp add: task_removed_def)

lemma task_removed_distinct:
  "task_removed t xs ys \<Longrightarrow> distinct (map task_url xs) \<Longrightarrow> distinct (map task_url ys)"
  by (simp add: task_removed_def)

lemma task_removed_fresh:
  "task_removed t xs ys \<Longrightarrow> distinct (map task_url xs) \<Longrightarrow> t' \<in> set ys
     \<Longrightarrow> task_url t' \<noteq> task_url t"
  by (simp add: task_removed_def)

lemma task_removed_self: "task_removed t xs ys \<Longrightarrow> t \<in> set xs"
  by (simp add: task_removed_def)

lemma task_relinked_self: "task_relinked t hs xs ys \<Longrightarrow> t \<in> set xs"
  by (simp add: task_relinked_def)

lemma task_relinked_urls: "task_relinked t hs xs ys \<Longrightarrow> map task_url ys = map task_url xs"
  by (simp add: task_relinked_def)

lemma task_relinked_mem:
  "task_relinked t hs xs ys \<Longrightarrow> t' \<in> set ys
     \<Longrightarrow> t' = t\<lparr>task_links := Some hs\<rparr> \<or> t' \<in> set xs"
  by (simp add: task_relinked_def)

lemma task_relinked_other:
  "task_relinked t hs xs ys \<Longrightarrow> distinct (map task_url xs) \<Longrightarrow> t' \<in> set ys
     \<Longrightarrow> t' = t\<lparr>task_links := Some hs\<rparr> \<or> (t' \<in> set xs \<and> task_url t' \<noteq> task_url t)"
  by (simp add: task_relinked_def)

lemma task_relinked_url_mem:
  assumes "task_relinked t hs xs ys" "t' \<in> set ys"
  shows "\<exists>t'' \<in> set xs. task_url t'' = task_url t'"
proof -
  from task_relinked_mem [OF assms] show ?thesis
  proof
    assume "t' = t\<lparr>task_links := Some hs\<rparr>"
    then show ?thesis using task_relinked_self [OF assms(1)] by auto
  next
    assume "t' \<in> set xs"
    then show ?thesis by auto
  qed
qed

lemma process_link_cases:
  assumes "process_link e bn rp url d href s = Inr s'"
  shows "s' = s
    \<or> (\<exists>nl. robots_denies rp nl \<and> normalized_link e bn nl
          \<and> s' = s\<lparr>errors := (errors s)(nl \<mapsto> ''Skipped by robots.txt (discovered link)'')\<rparr>)
    \<or> (\<exists>nl. \<not> robots_denies rp nl \<and> nl \<notin> crawled_urls s \<and> normalized_link e bn nl
          \<and> s' = s\<lparr>crawled_urls := insert nl (crawled_urls s),
                    queue := queue s @ [(nl, d + 1)],
                    enqueued := enqueued s @ [(nl, d + 1)]\<rparr>)"
  using assms unfolding process_link_def normalized_link_def
  by (auto simp: Let_def split: if_splits sum.splits)

lemma advance_task_cases [consumes 1, case_names noop fetch_error store_finish store_exn
    store_expand loop_over link_exn link_skip link_robots link_enqueue]:
  assumes "s' = advance_task e a bn rp i s"
  obtains
    "s' = s"
  | t m ys where "task_links t = None" "task_removed t (active s) ys"
      "s' = s\<lparr>errors := (errors s)(task_url t \<mapsto> m), active := ys\<rparr>"
  | t c ys where "task_links t = None" "task_removed t (active s) ys"
      "\<not> task_depth t < max_depth a"
      "s' = s\<lparr>html_contents := (html_contents s)(task_url t \<mapsto> c),
               total_bytes := total_bytes s + length c, active := ys\<rparr>"
  | t c nm msg ys where "task_links t = None" "task_removed t (active s) ys"
      "s' = s\<lparr>html_contents := (html_contents s)(task_url t \<mapsto> c),
               errors := (errors s)(task_url t \<mapsto> ''Processing Error: '' @ nm @ '' - '' @ msg),
               total_bytes := total_bytes s + length c, active := ys\<rparr>"
  | t c hs ys where "task_links t = None" "task_relinked t hs (active s) ys"
      "task_depth t < max_depth a"
      "s' = s\<lparr>html_contents := (html_contents s)(task_url t \<mapsto> c),
               total_bytes := total_bytes s + length c, active := ys\<rparr>"
  | t ys where "task_links t = Some []" "task_removed t (active s) ys"
      "s' = s\<lparr>active := ys\<rparr>"
  | t h hs nm msg ys where "task_links t = Some (h # hs)" "task_removed t (active s) ys"
      "s' = s\<lparr>errors := (errors s)(task_url t \<mapsto> ''Processing Error: '' @ nm @ '' - '' @ msg),
               active := ys\<rparr>"
  | t h hs ys where "task_links t = Some (h # hs)" "task_relinked t hs (active s) ys"
      "s' = s\<lparr>active := ys\<rparr>"
  | t h hs nl ys where "task_links t = Some (h # hs)" "task_relinked t hs (active s) ys"
      "robots_denies rp nl" "normalized_link e bn nl"
      "s' = s\<lparr>errors := (errors s)(nl \<mapsto> ''Skipped by robots.txt (discovered link)''),
               active := ys\<rparr>"
  | t h hs nl ys where "task_links t = Some (h # hs)" "task_relinked t hs (active s) ys"
      "\<not> robots_denies rp nl" "nl \<notin> crawled_urls s" "normalized_link e bn nl"
      "s' = s\<lparr>queue := queue s @ [(nl, task_depth t + 1)],
               crawled_urls := insert nl (crawled_urls s), active := ys,
               enqueued := enqueued s @ [(nl, task_depth t + 1)]\<rparr>"
proof (cases "i < length (active s)")
  case False
  then show ?thesis using assms that(1) by (simp add: advance_task_def)
next
  case True
  let ?t = "active s ! i"
  note rem = task_removed_nth [OF True]
  note rel = task_relinked_nth [OF True]
  show ?thesis
  proof (cases "task_links ?t")
    case None
    show ?thesis
    proof (cases "fetch_url_content (net e) (task_url ?t) (user_agent a)
        (retry_limit a) (backoff_base_ms a)")
      case NeverReturns
      then have "s' = s" using assms True None by (simp add: advance_task_def Let_def)
      then show ?thesis by (rule that(1))
    next
      case (Raised ex)
      obtain nm msg where ex: "ex = PyExn nm msg" by (cases ex) auto
      have "s' = s\<lparr>errors := (errors s)(task_url ?t \<mapsto>
                ''Processing Error: '' @ nm @ '' - '' @ msg),
              active := take i (active s) @ drop (Suc i) (active s)\<rparr>"
        using assms True None Raised ex by (simp add: advance_task_def Let_def finish_task_def)
      then show ?thesis by (rule that(2) [OF None rem])
    next
    case (Reply reply)
    obtain st c h where reply: "reply = (st, c, h)" by (cases reply) auto
    have s': "s' = on_fetched e a i ?t (st, c, h) s"
      using assms True None Reply reply by (simp add: advance_task_def Let_def)
    let ?ct = "lower (case h ''Content-Type'' of None \<Rightarrow> [] | Some v \<Rightarrow> v)"
    show ?thesis
    proof (cases "str_in ''text/html'' ?ct")
      case False
      have "s' = s\<lparr>errors := (errors s)(task_url ?t \<mapsto>
                ''Skipped: Not HTML (Content-Type: '' @ ?ct @ '')''),
              active := take i (active s) @ drop (Suc i) (active s)\<rparr>"
        using s' False by (simp add: on_fetched_def Let_def finish_task_def)
      then show ?thesis by (rule that(2) [OF None rem])
    next
      case html: True
      show ?thesis
      proof (cases "st = 200")
        case False
        have "s' = s\<lparr>errors := (errors s)(task_url ?t \<mapsto>
                ''HTTP Error: '' @ str_int st @ '' - ''
                   @ (if c \<noteq> [] then c else ''(No content returned for error)'')),
              active := take i (active s) @ drop (Suc i) (active s)\<rparr>"
          using s' False html by (simp add: on_fetched_def Let_def finish_task_def)
        then show ?thesis by (rule that(2) [OF None rem])
      next
        case ok: True
        show ?thesis
        proof (cases "task_depth ?t < max_depth a")
          case False
          have "s' = s\<lparr>html_contents := (html_contents s)(task_url ?t \<mapsto> c),
               total_bytes := total_bytes s + length c,
               active := take i (active s) @ drop (Suc i) (active s)\<rparr>"
            using s' html ok False by (simp add: on_fetched_def Let_def finish_task_def)
          then show ?thesis by (rule that(3) [OF None rem False])
        next
          case deep: True
          show ?thesis
          proof (cases "find_links e c")
            case (Inl ex)
            obtain nm msg where ex: "ex = PyExn nm msg" by (cases ex) auto
            have "s' = s\<lparr>html_contents := (html_contents s)(task_url ?t \<mapsto> c),
               errors := (errors s)(task_url ?t \<mapsto> ''Processing Error: '' @ nm @ '' - '' @ msg),
               total_bytes := total_bytes s + length c,
               active := take i (active s) @ drop (Suc i) (active s)\<rparr>"
              using s' html ok deep Inl ex by (simp add: on_fetched_def Let_def finish_task_def)
            then show ?thesis by (rule that(4) [OF None rem])
          next
            case (Inr hs)
            have "s' = s\<lparr>html_contents := (html_contents s)(task_url ?t \<mapsto> c),
               total_bytes := total_bytes s + length c,
               active := (active s)[i := ?t\<lparr>task_links := Some hs\<rparr>]\<rparr>"
              using s' html ok deep Inr by (simp add: on_fetched_def Let_def)
            then show ?thesis by (rule that(5) [OF None rel deep])
          qed
        qed
      qed
    qed
    qed
  next
    case (Some l)
    show ?thesis
    proof (cases l)
      case Nil
      have tl: "task_links ?t = Some []" using Some Nil by simp
      have "s' = s\<lparr>active := take i (active s) @ drop (Suc i) (active s)\<rparr>"
        using assms True tl by (simp add: advance_task_def Let_def finish_task_def)
      then show ?thesis by (rule that(6) [OF tl rem])
    next
      case (Cons h hs)
      have tl: "task_links ?t = Some (h # hs)" using Some Cons by simp
      show ?thesis
      proof (cases "process_link e bn rp (task_url ?t) (task_depth ?t) h s")
        case (Inl ex)
        obtain nm msg where ex: "ex = PyExn nm msg" by (cases ex) auto
        have "s' = s\<lparr>errors := (errors s)(task_url ?t \<mapsto>
                  ''Processing Error: '' @ nm @ '' - '' @ msg),
               active := take i (active s) @ drop (Suc i) (active s)\<rparr>"
          using assms True tl Inl ex by (simp add: advance_task_def Let_def finish_task_def)
        then show ?thesis by (rule that(7) [OF tl rem])
      next
        case (Inr s1)
        have s': "s' = s1\<lparr>active := (active s1)[i := ?t\<lparr>task_links := Some hs\<rparr>]\<rparr>"
          using assms True tl Inr by (simp add: advance_task_def Let_def)
        from process_link_cases [OF Inr]
        show ?thesis
        proof (elim disjE exE conjE)
          assume "s1 = s"
          then have "s' = s\<lparr>active := (active s)[i := ?t\<lparr>task_links := Some hs\<rparr>]\<rparr>"
            using s' by simp
          then show ?thesis by (rule that(8) [OF tl rel])
        next
          fix nl assume d: "robots_denies rp nl" "normalized_link e bn nl" and
            "s1 = s\<lparr>errors := (errors s)(nl \<mapsto> ''Skipped by robots.txt (discovered link)'')\<rparr>"
          then have "s' = s\<lparr>errors := (errors s)(nl \<mapsto> ''Skipped by robots.txt (discovered link)''),
               active := (active s)[i := ?t\<lparr>task_links := Some hs\<rparr>]\<rparr>"
            using s' by simp
          then show ?thesis by (rule that(9) [OF tl rel d])
        next
          fix nl assume d: "\<not> robots_denies rp nl" "nl \<notin> crawled_urls s"
            "normalized_link e bn nl" and
            "s1 = s\<lparr>crawled_urls := insert nl (crawled_urls s),
                    queue := queue s @ [(nl, task_depth ?t + 1)],
                    enqueued := enqueued s @ [(nl, task_depth ?t + 1)]\<rparr>"
          then have "s' = s\<lparr>queue := queue s @ [(nl, task_depth ?t + 1)],
               crawled_urls := insert nl (crawled_urls s),
               active := (active s)[i := ?t\<lparr>task_links := Some hs\<rparr>],
               enqueued := enqueued s @ [(nl, task_depth ?t + 1)]\<rparr>"
            using s' by simp
          then show ?thesis by (rule that(10) [OF tl rel d])
        qed
      qed
    qed
  qed
qed

lemma dispatch_cases [consumes 1, case_names noop skip create]:
  assumes "dispatch e a rp s = Inr s'"
  obtains
    "s' = s"
  | u d rest m where "queue s = (u, d) # rest"
      "s' = s\<lparr>queue := rest, errors := (errors s)(u \<mapsto> m)\<rparr>"
      "m = ''Skipped by robots.txt'' \<or> \<not> robots_denies rp u"
  | u d rest p where "queue s = (u, d) # rest" "\<not> robots_denies rp u"
      "urlparse e u = Inr p" "\<not> has_non_html_extension (lower (path p))"
      "s' = s\<lparr>queue := rest,
               active := active s @ [\<lparr>task_url = u, task_depth = d, task_links = None\<rparr>],
               dispatched := dispatched s @ [u]\<rparr>"
proof (cases "queue s")
  case Nil
  then show ?thesis using assms that(1) by (simp add: dispatch_def)
next
  case (Cons x rest)
  obtain u d where x: "x = (u, d)" by (cases x) auto
  have q: "queue s = (u, d) # rest" using Cons x by simp
  show ?thesis
  proof (cases "int (length (active s)) < max_concurrent_tasks a")
    case False
    then show ?thesis using assms q that(1) by (simp add: dispatch_def)
  next
    case room: True
    show ?thesis
    proof (cases "robots_denies rp u")
      case True
      have "s' = s\<lparr>queue := rest, errors := (errors s)(u \<mapsto> ''Skipped by robots.txt'')\<rparr>"
        using assms q room True by (auto simp: dispatch_def Let_def)
      then show ?thesis using that(2) [OF q] by blast
    next
      case allowed: False
      show ?thesis
      proof (cases "urlparse e u")
        case (Inl ex)
        then show ?thesis using assms q room allowed by (simp add: dispatch_def Let_def)
      next
        case (Inr p)
        show ?thesis
        proof (cases "has_non_html_extension (lower (path p))")
          case True
          have "s' = s\<lparr>queue := rest,
                       errors := (errors s)(u \<mapsto> ''Skipped due to file extension: '' @ path p)\<rparr>"
            using assms q room allowed Inr True by (auto simp: dispatch_def Let_def)
          then show ?thesis using that(2) [OF q] allowed by blast
        next
          case False
          have "s' = s\<lparr>queue := rest,
               active := active s @ [\<lparr>task_url = u, task_depth = d, task_links = None\<rparr>],
               dispatched := dispatched s @ [u]\<rparr>"
            using assms q room allowed Inr False by (auto simp: dispatch_def Let_def)
          then show ?thesis by (rule that(3) [OF q allowed Inr False])
        qed
      qed
    qed
  qed
qed

text \<open>An invariant of every step is an invariant of a run.\<close>

lemma run_invariant:
  assumes step: "\<And>x s s'. P s \<Longrightarrow> step e a bn rp x s = Inr s' \<Longrightarrow> P s'"
    and "P s" and "run e a bn rp xs s = Inr s'"
  shows "P s'"
  using assms(2,3)
proof (induction xs arbitrary: s)
  case Nil
  then show ?case by simp
next
  case (Cons x xs)
  then show ?case by (auto split: sum.splits dest: step)
qed

text \<open>How \<^verbatim>\<open>crawl\<close> returns: at once for an invalid root, or at the end of a run.\<close>

lemma crawl_returns_cases [consumes 1, case_names invalid_root ran]:
  assumes "crawl e a sched = Some (Inr r)"
  obtains p where "urlparse e (root_url a) = Inr p" "scheme p = [] \<or> netloc p = []"
      "r = invalid_root_result e a"
  | p s where "urlparse e (root_url a) = Inr p" "scheme p \<noteq> []" "netloc p \<noteq> []"
      "run e a (netloc p) (load_robots e a p) sched (init_state e a p) = Inr s"
      "queue s = []" "active s = []" "r = s\<lparr>end_time := clock_at_end e\<rparr>"
  using assms unfolding crawl_def
  by (auto split: sum.splits if_splits)

section \<open>Deduplication\<close>

lemma dedup_inv_init: "dedup_inv (init_state e a p)"
  by (simp add: dedup_inv_def init_state_def)

lemma dedup_inv_skip:
  assumes "dedup_inv s" "queue s = (u, d) # rest"
    "queue s' = rest" "crawled_urls s' = crawled_urls s" "enqueued s' = enqueued s"
    "dispatched s' = dispatched s" "active s' = active s"
  shows "dedup_inv s'"
  using assms(1) unfolding dedup_inv_def assms(2-7) by simp

lemma dedup_inv_create:
  assumes "dedup_inv s" "queue s = (u, d) # rest"
    "queue s' = rest" "crawled_urls s' = crawled_urls s" "enqueued s' = enqueued s"
    "dispatched s' = dispatched s @ [u]"
    "active s' = active s @ [\<lparr>task_url = u, task_depth = d, task_links = None\<rparr>]"
  shows "dedup_inv s'"
proof -
  have "u \<notin> set (dispatched s)" using assms(1) unfolding dedup_inv_def assms(2) by simp
  moreover have "\<forall>t \<in> set (active s). task_url t \<in> set (dispatched s)"
    using assms(1) unfolding dedup_inv_def by blast
  ultimately have "u \<notin> task_url ` set (active s)" by blast
  then show ?thesis
    using assms(1) unfolding dedup_inv_def assms(2-7) by simp
qed

lemma dedup_inv_removed:
  assumes "dedup_inv s" "task_removed t (active s) ys"
    "queue s' = queue s" "crawled_urls s' = crawled_urls s" "enqueued s' = enqueued s"
    "dispatched s' = dispatched s" "active s' = ys"
  shows "dedup_inv s'"
  using assms(1) task_removed_distinct [OF assms(2)] task_removed_mem [OF assms(2)]
  unfolding dedup_inv_def assms(3-7) by blast

lemma dedup_inv_relinked:
  assumes "dedup_inv s" "task_relinked t hs (active s) ys"
    "queue s' = queue s" "crawled_urls s' = crawled_urls s" "enqueued s' = enqueued s"
    "dispatched s' = dispatched s" "active s' = ys"
  shows "dedup_inv s'"
proof -
  have "\<forall>t' \<in> set ys. task_url t' \<in> set (dispatched s)"
    using task_relinked_url_mem [OF assms(2)] assms(1) unfolding dedup_inv_def by metis
  then show ?thesis
    using assms(1) unfolding dedup_inv_def assms(3-7) task_relinked_urls [OF assms(2)] by blast
qed

lemma dedup_inv_enqueue:
  assumes "dedup_inv s" "nl \<notin> crawled_urls s"
    "queue s' = queue s @ [(nl, d)]" "crawled_urls s' = insert nl (crawled_urls s)"
    "enqueued s' = enqueued s @ [(nl, d)]"
    "dispatched s' = dispatched s" "active s' = active s"
  shows "dedup_inv s'"
proof -
  from assms(1) have
    1: "distinct (dispatched s @ map fst (queue s))" and
    2: "\<forall>u \<in> set (dispatched s). u \<in> crawled_urls s" and
    3: "\<forall>x \<in> set (queue s). fst x \<in> crawled_urls s" and
    4: "distinct (map fst (enqueued s))" and
    5: "\<forall>x \<in> set (enqueued s). fst x \<in> crawled_urls s" and
    6: "\<forall>u \<in> crawled_urls s. u \<in> fst ` set (enqueued s)" and
    7: "distinct (map task_url (active s))" and
    8: "\<forall>t \<in> set (active s). task_url t \<in> set (dispatched s)"
    unfolding dedup_inv_def by blast+
  have a: "nl \<notin> set (dispatched s)" using 2 assms(2) by blast
  have b: "nl \<notin> fst ` set (queue s)" using 3 assms(2) by force
  have c: "nl \<notin> fst ` set (enqueued s)" using 5 assms(2) by force
  have n1: "distinct (dispatched s' @ map fst (queue s'))"
    using 1 a b unfolding assms(3-7) by simp
  have n4: "distinct (map fst (enqueued s'))"
    using 4 c unfolding assms(3-7) by simp
  have n6: "\<forall>u \<in> crawled_urls s'. u \<in> fst ` set (enqueued s')"
    using 6 unfolding assms(3-7) by force
  show ?thesis
    unfolding dedup_inv_def
    using n1 n4 n6 2 3 5 7 8 unfolding assms(3-7) by simp
qed

lemma dedup_inv_advance:
  assumes "dedup_inv s"
  shows "dedup_inv (advance_task e a bn rp i s)"
proof -
  obtain s' where s': "s' = advance_task e a bn rp i s" by simp
  from s' have "dedup_inv s'"
  proof (cases rule: advance_task_cases)
    case noop
    then show ?thesis using assms by simp
  next
    case (fetch_error t m ys)
    show ?thesis
      by (rule dedup_inv_removed [OF assms fetch_error(2)]) (simp_all add: fetch_error(3))
  next
    case (store_finish t c ys)
    show ?thesis
      by (rule dedup_inv_removed [OF assms store_finish(2)]) (simp_all add: store_finish(4))
  next
    case (store_exn t c nm msg ys)
    show ?thesis
      by (rule dedup_inv_removed [OF assms store_exn(2)]) (simp_all add: store_exn(3))
  next
    case (store_expand t c hs ys)
    show ?thesis
      by (rule dedup_inv_relinked [OF assms store_expand(2)]) (simp_all add: store_expand(4))
  next
    case (loop_over t ys)
    show ?thesis
      by (rule dedup_inv_removed [OF assms loop_over(2)]) (simp_all add: loop_over(3))
  next
    case (link_exn t h hs nm msg ys)
    show ?thesis
      by (rule dedup_inv_removed [OF assms link_exn(2)]) (simp_all add: link_exn(3))
  next
    case (link_skip t h hs ys)
    show ?thesis
      by (rule dedup_inv_relinked [OF assms link_skip(2)]) (simp_all add: link_skip(3))
  next
    case (link_robots t h hs nl ys)
    show ?thesis
      by (rule dedup_inv_relinked [OF assms link_robots(2)]) (simp_all add: link_robots(5))
  next
    case (link_enqueue t h hs nl ys)
    let ?m = "s\<lparr>queue := queue s @ [(nl, task_depth t + 1)],
               crawled_urls := insert nl (crawled_urls s),
               enqueued := enqueued s @ [(nl, task_depth t + 1)]\<rparr>"
    have m: "dedup_inv ?m"
      by (rule dedup_inv_enqueue [OF assms link_enqueue(4)]) simp_all
    have r: "task_relinked t hs (active ?m) ys" using link_enqueue(2) by simp
    show ?thesis
      by (rule dedup_inv_relinked [OF m r]) (simp_all add: link_enqueue(6))
  qed
  then show ?thesis using s' by simp
qed

lemma dedup_inv_dispatch:
  assumes "dedup_inv s" "dispatch e a rp s = Inr s'"
  shows "dedup_inv s'"
  using assms(2)
proof (cases rule: dispatch_cases)
  case noop
  then show ?thesis using assms by simp
next
  case (skip u d rest m)
  show ?thesis
    by (rule dedup_inv_skip [OF assms(1) skip(1)]) (simp_all add: skip(2))
next
  case (create u d rest p)
  show ?thesis
    by (rule dedup_inv_create [OF assms(1) create(1)]) (simp_all add: create(5))
qed

lemma dedup_inv_step:
  "dedup_inv s \<Longrightarrow> step e a bn rp x s = Inr s' \<Longrightarrow> dedup_inv s'"
  by (cases x) (auto intro: dedup_inv_dispatch dedup_inv_advance)

lemma dedup_inv_run:
  "run e a bn rp xs (init_state e a p) = Inr s \<Longrightarrow> dedup_inv s"
  by (rule run_invariant [where P = dedup_inv, OF dedup_inv_step dedup_inv_init])

section \<open>Depth\<close>

lemma depth_inv_advance:
  assumes "depth_inv a s"
  shows "depth_inv a (advance_task e a bn rp i s)"
proof -
  obtain s' where s': "s' = advance_task e a bn rp i s" by simp
  from s' have "depth_inv a s'"
  proof (cases rule: advance_task_cases)
    case noop
    then show ?thesis using assms by simp
  next
    case (fetch_error t m ys)
    show ?thesis
      using assms task_removed_mem [OF fetch_error(2)] task_removed_self [OF fetch_error(2)] fetch_error(1)
      unfolding depth_inv_def fetch_error(3)
      by (auto)
  next
    case (store_finish t c ys)
    show ?thesis
      using assms task_removed_mem [OF store_finish(2)] task_removed_self [OF store_finish(2)] store_finish(1) store_finish(3)
      unfolding depth_inv_def store_finish(4)
      by (auto)
  next
    case (store_exn t c nm msg ys)
    show ?thesis
      using assms task_removed_mem [OF store_exn(2)] task_removed_self [OF store_exn(2)] store_exn(1)
      unfolding depth_inv_def store_exn(3)
      by (auto)
  next
    case (store_expand t c hs ys)
    show ?thesis
      using assms task_relinked_self [OF store_expand(2)] store_expand(1) store_expand(3)
      unfolding depth_inv_def store_expand(4)
      by (auto dest!: task_relinked_mem [OF store_expand(2)])
  next
    case (loop_over t ys)
    show ?thesis
      using assms task_removed_mem [OF loop_over(2)] task_removed_self [OF loop_over(2)] loop_over(1)
      unfolding depth_inv_def loop_over(3)
      by (auto)
  next
    case (link_exn t h hs nm msg ys)
    show ?thesis
      using assms task_removed_mem [OF link_exn(2)] task_removed_self [OF link_exn(2)] link_exn(1)
      unfolding depth_inv_def link_exn(3)
      by (auto)
  next
    case (link_skip t h hs ys)
    show ?thesis
      using assms task_relinked_self [OF link_skip(2)] link_skip(1)
      unfolding depth_inv_def link_skip(3)
      by (auto dest!: task_relinked_mem [OF link_skip(2)])
  next
    case (link_robots t h hs nl ys)
    show ?thesis
      using assms task_relinked_self [OF link_robots(2)] link_robots(1) link_robots(3) link_robots(4)
      unfolding depth_inv_def link_robots(5)
      by (auto dest!: task_relinked_mem [OF link_robots(2)])
  next
    case (link_enqueue t h hs nl ys)
    have t: "t \<in> set (active s)" by (rule task_relinked_self [OF link_enqueue(2)])
    then have "(task_url t, task_depth t) \<in> set (enqueued s)"
      using assms unfolding depth_inv_def by blast
    moreover have "\<forall>x \<in> set (enqueued s). 0 \<le> snd x"
      using assms unfolding depth_inv_def by blast
    ultimately have d: "0 \<le> task_depth t" by force
    show ?thesis
      using assms t d link_enqueue(1) link_enqueue(3) link_enqueue(4) link_enqueue(5)
      unfolding depth_inv_def link_enqueue(6)
      by (auto dest!: task_relinked_mem [OF link_enqueue(2)])
  qed
  then show ?thesis using s' by simp
qed

lemma depth_inv_dispatch:
  assumes "depth_inv a s" "dispatch e a rp s = Inr s'"
  shows "depth_inv a s'"
  using assms(2)
proof (cases rule: dispatch_cases)
  case noop
  then show ?thesis using assms by simp
next
  case (skip u d rest m)
  show ?thesis
    using assms skip(1,3) unfolding depth_inv_def skip(2)
    by (auto)
next
  case (create u d rest p)
  show ?thesis
    using assms create(1-4) unfolding depth_inv_def create(5)
    by (auto)
qed

lemma depth_inv_init: "0 \<le> max_depth a \<Longrightarrow> depth_inv a (init_state e a p)"
  by (simp add: depth_inv_def init_state_def)

lemma depth_inv_step:
  "depth_inv a s \<Longrightarrow> step e a bn rp x s = Inr s' \<Longrightarrow> depth_inv a s'"
  by (cases x) (auto intro: depth_inv_dispatch depth_inv_advance)

lemma depth_inv_run:
  "0 \<le> max_depth a \<Longrightarrow> run e a bn rp xs (init_state e a p) = Inr s \<Longrightarrow> depth_inv a s"
  by (rule run_invariant [where P = "depth_inv a", OF depth_inv_step depth_inv_init])

lemma root_only_inv_advance:
  assumes "root_only_inv a s" "max_depth a \<le> 0"
  shows "root_only_inv a (advance_task e a bn rp i s)"
proof -
  obtain s' where s': "s' = advance_task e a bn rp i s" by simp
  from s' have "root_only_inv a s'"
  proof (cases rule: advance_task_cases)
    case noop
    then show ?thesis using assms by simp
  next
    case (fetch_error t m ys)
    show ?thesis
      using assms task_removed_mem [OF fetch_error(2)] task_removed_self [OF fetch_error(2)] fetch_error(1)
      unfolding root_only_inv_def fetch_error(3)
      by (auto)
  next
    case (store_finish t c ys)
    show ?thesis
      using assms task_removed_mem [OF store_finish(2)] task_removed_self [OF store_finish(2)] store_finish(1) store_finish(3)
      unfolding root_only_inv_def store_finish(4)
      by (auto)
  next
    case (store_exn t c nm msg ys)
    show ?thesis
      using assms task_removed_mem [OF store_exn(2)] task_removed_self [OF store_exn(2)] store_exn(1)
      unfolding root_only_inv_def store_exn(3)
      by (auto)
  next
    case (store_expand t c hs ys)
    show ?thesis
      using assms task_relinked_mem [OF store_expand(2)] task_relinked_self [OF store_expand(2)] store_expand(1) store_expand(3)
      unfolding root_only_inv_def store_expand(4)
      by (auto)
  next
    case (loop_over t ys)
    show ?thesis
      using assms task_removed_mem [OF loop_over(2)] task_removed_self [OF loop_over(2)] loop_over(1)
      unfolding root_only_inv_def loop_over(3)
      by (auto)
  next
    case (link_exn t h hs nm msg ys)
    show ?thesis
      using assms task_removed_mem [OF link_exn(2)] task_removed_self [OF link_exn(2)] link_exn(1)
      unfolding root_only_inv_def link_exn(3)
      by (auto)
  next
    case (link_skip t h hs ys)
    show ?thesis
      using assms task_relinked_mem [OF link_skip(2)] task_relinked_self [OF link_skip(2)] link_skip(1)
      unfolding root_only_inv_def link_skip(3)
      by (auto)
  next
    case (link_robots t h hs nl ys)
    show ?thesis
      using assms task_relinked_mem [OF link_robots(2)] task_relinked_self [OF link_robots(2)] link_robots(1) link_robots(3) link_robots(4)
      unfolding root_only_inv_def link_robots(5)
      by (auto)
  next
    case (link_enqueue t h hs nl ys)
    show ?thesis
      using assms task_relinked_mem [OF link_enqueue(2)] task_relinked_self [OF link_enqueue(2)] link_enqueue(1) link_enqueue(3) link_enqueue(4) link_enqueue(5)
      unfolding root_only_inv_def link_enqueue(6)
      by (auto)
  qed
  then show ?thesis using s' by simp
qed

lemma root_only_inv_dispatch:
  assumes "root_only_inv a s" "max_depth a \<le> 0" "dispatch e a rp s = Inr s'"
  shows "root_only_inv a s'"
  using assms(3)
proof (cases rule: dispatch_cases)
  case noop
  then show ?thesis using assms by simp
next
  case (skip u d rest m)
  show ?thesis
    using assms skip(1,3) unfolding root_only_inv_def skip(2)
    by (auto)
next
  case (create u d rest p)
  show ?thesis
    using assms create(1-4) unfolding root_only_inv_def create(5)
    by (auto)
qed

lemma root_only_inv_init: "root_only_inv a (init_state e a p)"
  by (simp add: root_only_inv_def init_state_def)

lemma root_only_inv_step:
  "max_depth a \<le> 0 \<Longrightarrow> root_only_inv a s \<Longrightarrow> step e a bn rp x s = Inr s'
     \<Longrightarrow> root_only_inv a s'"
  by (cases x) (auto intro: root_only_inv_dispatch root_only_inv_advance)

lemma root_only_inv_run:
  assumes "max_depth a \<le> 0" "run e a bn rp xs (init_state e a p) = Inr s"
  shows "root_only_inv a s"
  by (rule run_invariant [where P = "root_only_inv a", OF root_only_inv_step [OF assms(1)]
        root_only_inv_init assms(2)])

section \<open>File extensions\<close>

lemma extension_inv_advance:
  assumes "extension_inv e s"
  shows "extension_inv e (advance_task e a bn rp i s)"
proof -
  obtain s' where s': "s' = advance_task e a bn rp i s" by simp
  from s' have "extension_inv e s'"
  proof (cases rule: advance_task_cases)
    case noop
    then show ?thesis using assms by simp
  next
    case (fetch_error t m ys)
    show ?thesis
      using assms task_removed_mem [OF fetch_error(2)] task_removed_self [OF fetch_error(2)] fetch_error(1)
      unfolding extension_inv_def fetch_error(3)
      by (auto)
  next
    case (store_finish t c ys)
    show ?thesis
      using assms task_removed_mem [OF store_finish(2)] task_removed_self [OF store_finish(2)] store_finish(1) store_finish(3)
      unfolding extension_inv_def store_finish(4)
      by (auto)
  next
    case (store_exn t c nm msg ys)
    show ?thesis
      using assms task_removed_mem [OF store_exn(2)] task_removed_self [OF store_exn(2)] store_exn(1)
      unfolding extension_inv_def store_exn(3)
      by (auto)
  next
    case (store_expand t c hs ys)
    show ?thesis
      using assms task_relinked_self [OF store_expand(2)] store_expand(1) store_expand(3)
      unfolding extension_inv_def store_expand(4)
      by (auto dest!: task_relinked_mem [OF store_expand(2)])
  next
    case (loop_over t ys)
    show ?thesis
      using assms task_removed_mem [OF loop_over(2)] task_removed_self [OF loop_over(2)] loop_over(1)
      unfolding extension_inv_def loop_over(3)
      by (auto)
  next
    case (link_exn t h hs nm msg ys)
    show ?thesis
      using assms task_removed_mem [OF link_exn(2)] task_removed_self [OF link_exn(2)] link_exn(1)
      unfolding extension_inv_def link_exn(3)
      by (auto)
  next
    case (link_skip t h hs ys)
    show ?thesis
      using assms task_relinked_self [OF link_skip(2)] link_skip(1)
      unfolding extension_inv_def link_skip(3)
      by (auto dest!: task_relinked_mem [OF link_skip(2)])
  next
    case (link_robots t h hs nl ys)
    show ?thesis
      using assms task_relinked_self [OF link_robots(2)] link_robots(1) link_robots(3) link_robots(4)
      unfolding extension_inv_def link_robots(5)
      by (auto dest!: task_relinked_mem [OF link_robots(2)])
  next
    case (link_enqueue t h hs nl ys)
    show ?thesis
      using assms task_relinked_self [OF link_enqueue(2)] link_enqueue(1) link_enqueue(3) link_enqueue(4) link_enqueue(5)
      unfolding extension_inv_def link_enqueue(6)
      by (auto dest!: task_relinked_mem [OF link_enqueue(2)])
  qed
  then show ?thesis using s' by simp
qed

lemma extension_inv_dispatch:
  assumes "extension_inv e s" "dispatch e a rp s = Inr s'"
  shows "extension_inv e s'"
  using assms(2)
proof (cases rule: dispatch_cases)
  case noop
  then show ?thesis using assms by simp
next
  case (skip u d rest m)
  show ?thesis
    using assms skip(1,3) unfolding extension_inv_def skip(2)
    by (auto)
next
  case (create u d rest p)
  show ?thesis
    using assms create(1-4) unfolding extension_inv_def create(5)
    by (auto)
qed

lemma extension_inv_init: "extension_inv e (init_state e a p)"
  by (simp add: extension_inv_def init_state_def)

lemma extension_inv_step:
  "extension_inv e s \<Longrightarrow> step e a bn rp x s = Inr s' \<Longrightarrow> extension_inv e s'"
  by (cases x) (auto intro: extension_inv_dispatch extension_inv_advance)

lemma extension_inv_run:
  "run e a bn rp xs (init_state e a p) = Inr s \<Longrightarrow> extension_inv e s"
  by (rule run_invariant [where P = "extension_inv e", OF extension_inv_step extension_inv_init])

section \<open>Robots\<close>






section \<open>Keys\<close>

lemma keys_inv_advance:
  assumes "keys_inv e a bn s"
  shows "keys_inv e a bn (advance_task e a bn rp i s)"
proof -
  obtain s' where s': "s' = advance_task e a bn rp i s" by simp
  from s' have "keys_inv e a bn s'"
  proof (cases rule: advance_task_cases)
    case noop
    then show ?thesis using assms by simp
  next
    case (fetch_error t m ys)
    show ?thesis
      using assms task_removed_mem [OF fetch_error(2)] task_removed_self [OF fetch_error(2)] fetch_error(1)
      unfolding keys_inv_def fetch_error(3)
      by (auto)
  next
    case (store_finish t c ys)
    show ?thesis
      using assms task_removed_mem [OF store_finish(2)] task_removed_self [OF store_finish(2)] store_finish(1) store_finish(3)
      unfolding keys_inv_def store_finish(4)
      by (auto)
  next
    case (store_exn t c nm msg ys)
    show ?thesis
      using assms task_removed_mem [OF store_exn(2)] task_removed_self [OF store_exn(2)] store_exn(1)
      unfolding keys_inv_def store_exn(3)
      by (auto)
  next
    case (store_expand t c hs ys)
    show ?thesis
      using assms task_relinked_self [OF store_expand(2)] store_expand(1) store_expand(3)
      unfolding keys_inv_def store_expand(4)
      by (auto dest!: task_relinked_mem [OF store_expand(2)])
  next
    case (loop_over t ys)
    show ?thesis
      using assms task_removed_mem [OF loop_over(2)] task_removed_self [OF loop_over(2)] loop_over(1)
      unfolding keys_inv_def loop_over(3)
      by (auto)
  next
    case (link_exn t h hs nm msg ys)
    show ?thesis
      using assms task_removed_mem [OF link_exn(2)] task_removed_self [OF link_exn(2)] link_exn(1)
      unfolding keys_inv_def link_exn(3)
      by (auto)
  next
    case (link_skip t h hs ys)
    show ?thesis
      using assms task_relinked_self [OF link_skip(2)] link_skip(1)
      unfolding keys_inv_def link_skip(3)
      by (auto dest!: task_relinked_mem [OF link_skip(2)])
  next
    case (link_robots t h hs nl ys)
    show ?thesis
      using assms task_relinked_self [OF link_robots(2)] link_robots(1) link_robots(3) link_robots(4)
      unfolding keys_inv_def link_robots(5)
      by (auto dest!: task_relinked_mem [OF link_robots(2)])
  next
    case (link_enqueue t h hs nl ys)
    show ?thesis
      using assms task_relinked_self [OF link_enqueue(2)] link_enqueue(1) link_enqueue(3) link_enqueue(4) link_enqueue(5)
      unfolding keys_inv_def link_enqueue(6)
      by (auto dest!: task_relinked_mem [OF link_enqueue(2)])
  qed
  then show ?thesis using s' by simp
qed

lemma keys_inv_dispatch:
  assumes "keys_inv e a bn s" "dispatch e a rp s = Inr s'"
  shows "keys_inv e a bn s'"
  using assms(2)
proof (cases rule: dispatch_cases)
  case noop
  then show ?thesis using assms by simp
next
  case (skip u d rest m)
  show ?thesis
    using assms skip(1,3) unfolding keys_inv_def skip(2)
    by (auto)
next
  case (create u d rest p)
  show ?thesis
    using assms create(1-4) unfolding keys_inv_def create(5)
    by (auto)
qed

lemma keys_inv_init: "keys_inv e a bn (init_state e a p)"
  by (simp add: keys_inv_def init_state_def)

lemma keys_inv_step:
  "keys_inv e a bn s \<Longrightarrow> step e a bn rp x s = Inr s' \<Longrightarrow> keys_inv e a bn s'"
  by (cases x) (auto intro: keys_inv_dispatch keys_inv_advance)

lemma keys_inv_run:
  "run e a bn rp xs (init_state e a p) = Inr s \<Longrightarrow> keys_inv e a bn s"
  by (rule run_invariant [where P = "keys_inv e a bn", OF keys_inv_step keys_inv_init])

section \<open>Pages and errors\<close>

lemma startswith_processing [simp]:
  "startswith (''Processing Error: '' @ m) ''Processing Error: ''"
  by (simp add: startswith_def)

lemma disjoint_inv_advance:
  assumes "disjoint_inv rp s" "dedup_inv s"
  shows "disjoint_inv rp (advance_task e a bn rp i s)"
proof -
  have dist: "distinct (map task_url (active s))"
    and disp: "\<forall>t \<in> set (active s). task_url t \<in> set (dispatched s)"
    and dq: "\<forall>x \<in> set (queue s). fst x \<notin> set (dispatched s)"
    and dc: "\<forall>u \<in> set (dispatched s). u \<in> crawled_urls s"
    using assms(2) unfolding dedup_inv_def by auto
  have aq: "\<forall>t \<in> set (active s). \<forall>x \<in> set (queue s). fst x \<noteq> task_url t"
    using disp dq by metis
  have ac: "\<forall>t \<in> set (active s). task_url t \<in> crawled_urls s"
    using disp dc by blast
  have ae: "\<forall>t \<in> set (active s). errors s (task_url t) = None"
    using assms(1) unfolding disjoint_inv_def by (metis)
  obtain s' where s': "s' = advance_task e a bn rp i s" by simp
  from s' have "disjoint_inv rp s'"
  proof (cases rule: advance_task_cases)
    case noop
    then show ?thesis using assms by simp
  next
    case (fetch_error t m ys)
    note tin = task_removed_self [OF fetch_error(2)]
    note fresh = task_removed_fresh [OF fetch_error(2) dist]
    show ?thesis
      using assms(1) tin fresh aq ac ae fetch_error(1)
      unfolding disjoint_inv_def fetch_error(3)
      by (auto simp: startswith_def dest!: task_removed_mem [OF fetch_error(2)])
  next
    case (store_finish t c ys)
    note tin = task_removed_self [OF store_finish(2)]
    note fresh = task_removed_fresh [OF store_finish(2) dist]
    show ?thesis
      using assms(1) tin fresh aq ac ae store_finish(1) store_finish(3)
      unfolding disjoint_inv_def store_finish(4)
      by (auto simp: startswith_def dest!: task_removed_mem [OF store_finish(2)])
  next
    case (store_exn t c nm msg ys)
    note tin = task_removed_self [OF store_exn(2)]
    note fresh = task_removed_fresh [OF store_exn(2) dist]
    show ?thesis
      using assms(1) tin fresh aq ac ae store_exn(1)
      unfolding disjoint_inv_def store_exn(3)
      by (auto simp: startswith_def dest!: task_removed_mem [OF store_exn(2)])
  next
    case (store_expand t c hs ys)
    note tin = task_relinked_self [OF store_expand(2)]
    show ?thesis
      using assms(1) tin aq ac ae store_expand(1) store_expand(3)
      unfolding disjoint_inv_def store_expand(4)
      by (auto dest!: task_relinked_other [OF store_expand(2) dist])
  next
    case (loop_over t ys)
    note tin = task_removed_self [OF loop_over(2)]
    note fresh = task_removed_fresh [OF loop_over(2) dist]
    show ?thesis
      using assms(1) tin fresh aq ac ae loop_over(1)
      unfolding disjoint_inv_def loop_over(3)
      by (auto simp: startswith_def dest!: task_removed_mem [OF loop_over(2)])
  next
    case (link_exn t h hs nm msg ys)
    note tin = task_removed_self [OF link_exn(2)]
    note fresh = task_removed_fresh [OF link_exn(2) dist]
    show ?thesis
      using assms(1) tin fresh aq ac ae link_exn(1)
      unfolding disjoint_inv_def link_exn(3)
      by (auto simp: startswith_def dest!: task_removed_mem [OF link_exn(2)])
  next
    case (link_skip t h hs ys)
    note tin = task_relinked_self [OF link_skip(2)]
    show ?thesis
      using assms(1) tin aq ac ae link_skip(1)
      unfolding disjoint_inv_def link_skip(3)
      by (auto dest!: task_relinked_other [OF link_skip(2) dist])
  next
    case (link_robots t h hs nl ys)
    note tin = task_relinked_self [OF link_robots(2)]
    show ?thesis
      using assms(1) tin aq ac ae link_robots(1) link_robots(3) link_robots(4)
      unfolding disjoint_inv_def link_robots(5)
      by (auto dest!: task_relinked_other [OF link_robots(2) dist])
  next
    case (link_enqueue t h hs nl ys)
    note tin = task_relinked_self [OF link_enqueue(2)]
    show ?thesis
      using assms(1) tin aq ac ae link_enqueue(1) link_enqueue(3) link_enqueue(4) link_enqueue(5)
      unfolding disjoint_inv_def link_enqueue(6)
      by (auto dest!: task_relinked_other [OF link_enqueue(2) dist])
  qed
  then show ?thesis using s' by simp
qed

lemma disjoint_inv_dispatch:
  assumes "disjoint_inv rp s" "dedup_inv s" "dispatch e a rp s = Inr s'"
  shows "disjoint_inv rp s'"
  using assms(3)
proof (cases rule: dispatch_cases)
  case noop
  then show ?thesis using assms by simp
next
  case (skip u d rest m)
  show ?thesis
    using assms(1,2) skip(1,3) unfolding disjoint_inv_def dedup_inv_def skip(2)
    by (auto)
next
  case (create u d rest p)
  show ?thesis
    using assms(1,2) create(1-4) unfolding disjoint_inv_def dedup_inv_def create(5)
    by (auto)
qed

lemma disjoint_inv_init: "disjoint_inv rp (init_state e a p)"
  by (simp add: disjoint_inv_def init_state_def)

lemma disjoint_inv_step:
  assumes "dedup_inv s \<and> disjoint_inv rp s" "step e a bn rp x s = Inr s'"
  shows "dedup_inv s' \<and> disjoint_inv rp s'"
proof (cases x)
  case Dispatch
  then show ?thesis
    using assms dedup_inv_dispatch [of s e a rp s'] disjoint_inv_dispatch [of rp s e a s']
    by simp
next
  case (Advance i)
  then show ?thesis
    using assms dedup_inv_advance [of s e a bn rp i] disjoint_inv_advance [of rp s e a bn i]
    by auto
qed

lemma disjoint_inv_run:
  assumes "run e a bn rp xs (init_state e a p) = Inr s"
  shows "disjoint_inv rp s"
proof -
  have "dedup_inv (init_state e a p) \<and> disjoint_inv rp (init_state e a p)"
    by (simp add: dedup_inv_init disjoint_inv_init)
  from run_invariant [where P = "\<lambda>s. dedup_inv s \<and> disjoint_inv rp s",
      OF disjoint_inv_step this assms]
  show ?thesis by simp
qed

section \<open>The states of a crawl\<close>

lemma crawl_reach_cases [consumes 1, case_names invalid_root ran]:
  assumes "crawl_state_after e a sched = Some s \<or> crawl e a sched = Some (Inr s)"
  obtains p where "urlparse e (root_url a) = Inr p" "scheme p = [] \<or> netloc p = []"
      "s = invalid_root_result e a"
  | p s0 where "urlparse e (root_url a) = Inr p" "scheme p \<noteq> []" "netloc p \<noteq> []"
      "run e a (netloc p) (load_robots e a p) sched (init_state e a p) = Inr s0"
      "s = s0 \<or> s = s0\<lparr>end_time := clock_at_end e\<rparr>"
  using assms
proof
  assume "crawl_state_after e a sched = Some s"
  then show ?thesis
    using that(2) unfolding crawl_state_after_def
    by (auto split: sum.splits if_splits)
next
  assume "crawl e a sched = Some (Inr s)"
  then show ?thesis
  proof (cases rule: crawl_returns_cases)
    case (invalid_root p)
    then show ?thesis using that(1) by blast
  next
    case (ran p s0)
    then show ?thesis using that(2) by blast
  qed
qed

lemma dedup_inv_end_time [simp]: "dedup_inv (s\<lparr>end_time := x\<rparr>) = dedup_inv s"
  by (simp add: dedup_inv_def)

lemma depth_inv_end_time [simp]: "depth_inv a (s\<lparr>end_time := x\<rparr>) = depth_inv a s"
  by (simp add: depth_inv_def)

lemma root_only_inv_end_time [simp]: "root_only_inv a (s\<lparr>end_time := x\<rparr>) = root_only_inv a s"
  by (simp add: root_only_inv_def)

lemma disjoint_inv_end_time [simp]: "disjoint_inv rp (s\<lparr>end_time := x\<rparr>) = disjoint_inv rp s"
  by (simp add: disjoint_inv_def)

lemma extension_inv_end_time [simp]: "extension_inv e (s\<lparr>end_time := x\<rparr>) = extension_inv e s"
  by (simp add: extension_inv_def)

lemma robots_inv_end_time [simp]: "robots_inv rp (s\<lparr>end_time := x\<rparr>) = robots_inv rp s"
  by (simp add: robots_inv_def)

lemma keys_inv_end_time [simp]: "keys_inv e a bn (s\<lparr>end_time := x\<rparr>) = keys_inv e a bn s"
  by (simp add: keys_inv_def)

lemma endswith_lower: "endswith s p \<Longrightarrow> endswith (lower s) (lower p)"
  by (auto simp: endswith_def lower_def drop_map)

lemma png_is_non_html:
  assumes "endswith pth ''.png''"
  shows "has_non_html_extension (lower pth)"
proof -
  have "lower ''.png'' = ''.png''" by (simp add: lower_def lower_char_def)
  then have "endswith (lower pth) ''.png''" using endswith_lower [OF assms] by simp
  moreover have "''.png'' \<in> set NON_HTML_EXTENSIONS" by (simp add: NON_HTML_EXTENSIONS_def)
  ultimately show ?thesis unfolding has_non_html_extension_def list_ex_iff by blast
qed






lemma completedD: "completed x \<Longrightarrow> x = Some (Inr (returned x))"
  by (auto simp: completed_def returned_def split: option.splits sum.splits)


text \<open>
  On the concrete site, recomposing a parsed http URL without its fragment gives a URL
  that is its own normalized form.
\<close>

lemma demo_renormalize:
  assumes "demo_urlparse u = Inr p" "scheme p \<in> {''http'', ''https''}"
  shows "normalize_url demo_env (urlunparse demo_env (p\<lparr>fragment := []\<rparr>))
     = Inr (urlunparse demo_env (p\<lparr>fragment := []\<rparr>))"
proof -
  consider (c1) "u = ''http://a.com/''" | (c2) "u = ''http://a.com/#top''" | (c3) "u = ''http://a.com/b''" | (c4) "u = ''http://a.com/img''" | (c5) "u = ''http://a.com/priv''" | (c6) "u = ''http://a.com/privimg''" | (c7) "u = ''http://a.com/bad''" | (c8) "u = ''http://a.com/missing''" | (c9) "u = ''http://a.com/accepted''" | (c10) "u = ''http://a.com/logo.png''" | (c11) "u = ''http://a.com/private/x''" | (c12) "u = ''http://a.com/private/logo.png''"
    | (other) "u \<noteq> ''http://a.com/''" "u \<noteq> ''http://a.com/#top''" "u \<noteq> ''http://a.com/b''" "u \<noteq> ''http://a.com/img''" "u \<noteq> ''http://a.com/priv''" "u \<noteq> ''http://a.com/privimg''" "u \<noteq> ''http://a.com/bad''" "u \<noteq> ''http://a.com/missing''" "u \<noteq> ''http://a.com/accepted''" "u \<noteq> ''http://a.com/logo.png''" "u \<noteq> ''http://a.com/private/x''" "u \<noteq> ''http://a.com/private/logo.png''"
    by auto
  then show ?thesis
  proof cases
    case c1
    then have p: "p = demo_url ''/'' []" using assms(1) by (simp add: demo_urlparse_def)
    show ?thesis unfolding p by code_simp
  next
    case c2
    then have p: "p = demo_url ''/'' ''top''" using assms(1) by (simp add: demo_urlparse_def)
    show ?thesis unfolding p by code_simp
  next
    case c3
    then have p: "p = demo_url ''/b'' []" using assms(1) by (simp add: demo_urlparse_def)
    show ?thesis unfolding p by code_simp
  next
    case c4
    then have p: "p = demo_url ''/img'' []" using assms(1) by (simp add: demo_urlparse_def)
    show ?thesis unfolding p by code_simp
  next
    case c5
    then have p: "p = demo_url ''/priv'' []" using assms(1) by (simp add: demo_urlparse_def)
    show ?thesis unfolding p by code_simp
  next
    case c6
    then have p: "p = demo_url ''/privimg'' []" using assms(1) by (simp add: demo_urlparse_def)
    show ?thesis unfolding p by code_simp
  next
    case c7
    then have p: "p = demo_url ''/bad'' []" using assms(1) by (simp add: demo_urlparse_def)
    show ?thesis unfolding p by code_simp
  next
    case c8
    then have p: "p = demo_url ''/missing'' []" using assms(1) by (simp add: demo_urlparse_def)
    show ?thesis unfolding p by code_simp
  next
    case c9
    then have p: "p = demo_url ''/accepted'' []" using assms(1) by (simp add: demo_urlparse_def)
    show ?thesis unfolding p by code_simp
  next
    case c10
    then have p: "p = demo_url ''/logo.png'' []" using assms(1) by (simp add: demo_urlparse_def)
    show ?thesis unfolding p by code_simp
  next
    case c11
    then have p: "p = demo_url ''/private/x'' []" using assms(1) by (simp add: demo_urlparse_def)
    show ?thesis unfolding p by code_simp
  next
    case c12
    then have p: "p = demo_url ''/private/logo.png'' []" using assms(1) by (simp add: demo_urlparse_def)
    show ?thesis unfolding p by code_simp
  next
    case other
    then have "scheme p = []" using assms(1) by (auto simp: demo_urlparse_def split: if_splits)
    then show ?thesis using assms(2) by simp
  qed
qed

lemma demo_links_stay_normalized: "links_stay_normalized demo_env"
  unfolding links_stay_normalized_def normalized_link_def
proof (intro allI impI, elim exE conjE)
  fix bn k al pl
  assume p: "urlparse demo_env al = Inr pl" and s: "scheme pl \<in> {''http'', ''https''}"
    and k: "k = urlunparse demo_env (pl\<lparr>fragment := []\<rparr>)"
  from p have "demo_urlparse al = Inr pl" by (simp add: demo_env_def)
  from demo_renormalize [OF this s] show "normalize_url demo_env k = Inr k"
    unfolding k .
qed

section \<open>The claims about the crawler\<close>

text \<open>
  Claim C1, as amended. In every state of a crawl, and in the result it returns, a URL
  that is a key of both \<^verbatim>\<open>html_contents\<close> and \<^verbatim>\<open>errors\<close> has an error entry
  that starts with \<open>Processing Error:\<close>, the entry written by the exception handler
  of \<^verbatim>\<open>process_single_url\<close>; so the two key sets are disjoint apart from the pages
  that were stored before their processing raised.
\<close>

theorem overlap_only_after_processing_error:
  assumes "crawl_state_after e a sched = Some s \<or> crawl e a sched = Some (Inr s)"
    and "html_contents s u = Some c" and "errors s u = Some m"
  shows "startswith m ''Processing Error: ''"
  using assms(1)
proof (cases rule: crawl_reach_cases)
  case (invalid_root p)
  then show ?thesis using assms(2) by (simp add: invalid_root_result_def)
next
  case (ran p s0)
  have "disjoint_inv (load_robots e a p) s0" by (rule disjoint_inv_run [OF ran(4)])
  then have "disjoint_inv (load_robots e a p) s" using ran(5) by auto
  then show ?thesis using assms(2,3) unfolding disjoint_inv_def by (blast)
qed

text \<open>
  The run \<open>crawl_bad_link\<close>: the root page is stored, then \<^verbatim>\<open>urljoin\<close> raises on
  its anchor, and the handler records the root URL in \<^verbatim>\<open>errors\<close> as well.
\<close>

theorem overlap_only_after_processing_error_witness:
  "completed crawl_bad_link
   \<and> html_contents (returned crawl_bad_link) ''http://a.com/bad'' = Some ''<a href=http://[>bad</a>''
   \<and> errors (returned crawl_bad_link) ''http://a.com/bad''
       = Some ''Processing Error: ValueError - Invalid IPv6 URL''
   \<and> startswith ''Processing Error: ValueError - Invalid IPv6 URL'' ''Processing Error: ''"
proof -
  have c: "completed crawl_bad_link" by code_simp
  have h: "html_contents (returned crawl_bad_link) ''http://a.com/bad''
      = Some ''<a href=http://[>bad</a>''" by code_simp
  have er: "errors (returned crawl_bad_link) ''http://a.com/bad''
      = Some ''Processing Error: ValueError - Invalid IPv6 URL''" by code_simp
  have "crawl demo_env (demo_args ''http://a.com/bad'' 1 False) [Dispatch, Advance 0, Advance 0]
      = Some (Inr (returned crawl_bad_link))"
    using completedD [OF c] by (simp add: crawl_bad_link_def)
  from overlap_only_after_processing_error [OF disjI2 [OF this] h er]
  show ?thesis using c h er by simp
qed

text \<open>
  Claim C1 as stated fails on that run: the root URL is a key of both mappings.
\<close>

theorem overlap_counterexample:
  "completed crawl_bad_link
   \<and> html_contents (returned crawl_bad_link) ''http://a.com/bad'' = Some ''<a href=http://[>bad</a>''
   \<and> errors (returned crawl_bad_link) ''http://a.com/bad''
       = Some ''Processing Error: ValueError - Invalid IPv6 URL''"
  by code_simp

text \<open>
  Claim C4. When the parse of \<^verbatim>\<open>root_url\<close> has an empty scheme or an empty host,
  \<^verbatim>\<open>crawl\<close> returns whatever the schedule, without requesting robots.txt, putting
  anything on the queue or creating a task; \<^verbatim>\<open>errors\<close> is the single entry for the
  root URL as given, \<^verbatim>\<open>html_contents\<close> is empty, and \<^verbatim>\<open>elapsed_ms\<close> is not
  negative, the event loop's clock being monotonic.
\<close>

theorem invalid_root_is_single_error:
  assumes "urlparse e (root_url a) = Inr p"
    and "scheme p = [] \<or> netloc p = []"
    and "clock_at_start e \<le> clock_at_end e"
  shows "\<exists>r. crawl e a sched = Some (Inr r)
    \<and> errors r = [root_url a \<mapsto> ''Invalid root_url: Must be absolute.'']
    \<and> html_contents r = Map.empty
    \<and> 0 \<le> elapsed_ms r
    \<and> total_bytes r = 0 \<and> robots_requests r = [] \<and> enqueued r = [] \<and> dispatched r = []"
proof -
  have "crawl e a sched = Some (Inr (invalid_root_result e a))"
    using assms(1,2) by (auto simp: crawl_def)
  moreover have "0 \<le> elapsed_ms (invalid_root_result e a)"
    using assms(3) by (simp add: elapsed_ms_def invalid_root_result_def)
  ultimately show ?thesis by (simp add: invalid_root_result_def)
qed

text \<open>The run \<open>crawl_relative_root\<close>, whose root URL \<^verbatim>\<open>a.com/page\<close> has no scheme.\<close>

theorem invalid_root_is_single_error_witness:
  "\<exists>r. crawl demo_env (demo_args ''a.com/page'' 1 True) [] = Some (Inr r)
    \<and> errors r = [''a.com/page'' \<mapsto> ''Invalid root_url: Must be absolute.'']
    \<and> html_contents r = Map.empty
    \<and> 0 \<le> elapsed_ms r
    \<and> total_bytes r = 0 \<and> robots_requests r = [] \<and> enqueued r = [] \<and> dispatched r = []"
proof -
  have p: "urlparse demo_env (root_url (demo_args ''a.com/page'' 1 True))
      = Inr \<lparr>scheme = [], netloc = [], path = ''a.com/page'', params = [], query = [],
             fragment = []\<rparr>"
    by (simp add: demo_env_def demo_urlparse_def demo_args_def)
  have t: "clock_at_start demo_env \<le> clock_at_end demo_env" by (simp add: demo_env_def)
  from invalid_root_is_single_error [OF p _ t, of "[]"]
  show ?thesis by (simp add: demo_args_def)
qed

text \<open>
  Claim C5, as amended. In every state of a crawl, and in the result it returns, the
  URLs ever put on the queue are pairwise different and are exactly the visited set,
  and the URLs for which a task was created are pairwise different and visited: a URL
  string is enqueued at most once and fetched by at most one task, whatever the links
  between the pages. The strings compared are the normalized links and the root URL as
  given. When the root URL is given in its normalized form, and normalizing a
  normalized link gives it back, the normalized forms of the enqueued URLs are pairwise
  different too, and so are those of the URLs for which a task was created.
\<close>

theorem urls_enqueued_and_dispatched_once:
  assumes "crawl_state_after e a sched = Some s \<or> crawl e a sched = Some (Inr s)"
  shows "distinct (map fst (enqueued s)) \<and> distinct (dispatched s)
    \<and> crawled_urls s = fst ` set (enqueued s)
    \<and> set (dispatched s) \<subseteq> crawled_urls s
    \<and> distinct (map task_url (active s))
    \<and> (normalize_url e (root_url a) = Inr (root_url a) \<and> links_stay_normalized e \<longrightarrow>
          distinct (map (normalize_url e) (map fst (enqueued s)))
        \<and> distinct (map (normalize_url e) (dispatched s)))"
  using assms
proof (cases rule: crawl_reach_cases)
  case (invalid_root p)
  then show ?thesis by (simp add: invalid_root_result_def)
next
  case (ran p s0)
  have "dedup_inv s0" by (rule dedup_inv_run [OF ran(4)])
  then have "dedup_inv s" using ran(5) by auto
  then have d: "distinct (map fst (enqueued s))" "distinct (dispatched s)"
    "crawled_urls s = fst ` set (enqueued s)" "set (dispatched s) \<subseteq> crawled_urls s"
    "distinct (map task_url (active s))"
    unfolding dedup_inv_def by auto
  have "keys_inv e a (netloc p) s0" by (rule keys_inv_run [OF ran(4)])
  then have "keys_inv e a (netloc p) s" using ran(5) by auto
  then have k: "\<forall>x \<in> set (enqueued s). fst x = root_url a \<or> normalized_link e (netloc p) (fst x)"
    unfolding keys_inv_def by blast
  have n: "distinct (map (normalize_url e) (map fst (enqueued s)))
        \<and> distinct (map (normalize_url e) (dispatched s))"
    if r: "normalize_url e (root_url a) = Inr (root_url a)" and l: "links_stay_normalized e"
  proof -
    have fx: "normalize_url e u = Inr u" if "u \<in> crawled_urls s" for u
    proof -
      from that d(3) obtain x where x: "x \<in> set (enqueued s)" "u = fst x" by auto
      from k x have "u = root_url a \<or> normalized_link e (netloc p) u" by simp
      then show ?thesis using r l unfolding links_stay_normalized_def by auto
    qed
    have e1: "map (normalize_url e) (map fst (enqueued s)) = map Inr (map fst (enqueued s))"
      using fx d(3) by (intro map_cong) auto
    have e2: "map (normalize_url e) (dispatched s) = map Inr (dispatched s)"
      using fx d(4) by (intro map_cong) auto
    show ?thesis
      unfolding e1 e2 using d(1,2) by (auto simp: distinct_map inj_on_def)
  qed
  show ?thesis using d n by blast
qed

text \<open>
  The run \<open>crawl_cycle\<close>, in which the two pages link to each other: each is
  dispatched once.
\<close>

theorem urls_enqueued_and_dispatched_once_witness:
  "completed crawl_cycle
   \<and> dispatched (returned crawl_cycle) = [''http://a.com/'', ''http://a.com/b'']
   \<and> distinct (dispatched (returned crawl_cycle))
   \<and> distinct (map fst (enqueued (returned crawl_cycle)))
   \<and> crawled_urls (returned crawl_cycle) = fst ` set (enqueued (returned crawl_cycle))
   \<and> normalize_url demo_env ''http://a.com/'' = Inr ''http://a.com/''
   \<and> links_stay_normalized demo_env
   \<and> distinct (map (normalize_url demo_env) (dispatched (returned crawl_cycle)))"
proof -
  have c: "completed crawl_cycle" by code_simp
  have d: "dispatched (returned crawl_cycle) = [''http://a.com/'', ''http://a.com/b'']"
    by code_simp
  have r: "normalize_url demo_env (root_url (demo_args ''http://a.com/'' 2 False))
      = Inr (root_url (demo_args ''http://a.com/'' 2 False))"
    by code_simp
  have l: "links_stay_normalized demo_env" by (rule demo_links_stay_normalized)
  have "crawl demo_env (demo_args ''http://a.com/'' 2 False)
       [Dispatch, Advance 0, Advance 0, Advance 0, Dispatch, Advance 0, Advance 0, Advance 0]
      = Some (Inr (returned crawl_cycle))"
    using completedD [OF c] by (simp add: crawl_cycle_def)
  from urls_enqueued_and_dispatched_once [OF disjI2 [OF this]] r l
  show ?thesis using c d by (simp add: demo_args_def)
qed

text \<open>
  Claim C5 as stated fails when the root URL is not given in normalized form. In the
  run \<open>crawl_fragment_cycle\<close> the root URL \<^verbatim>\<open>http://a.com/#top\<close> is enqueued as it
  is, page \<^verbatim>\<open>/b\<close> links to \<^verbatim>\<open>/\<close>, and the normalized link
  \<^verbatim>\<open>http://a.com/\<close> is not in the visited set: a second task is created for the
  same normalized URL, and the page is fetched twice.
\<close>

theorem normalized_url_twice_counterexample:
  "completed crawl_fragment_cycle
   \<and> dispatched (returned crawl_fragment_cycle)
       = [''http://a.com/#top'', ''http://a.com/b'', ''http://a.com/'']
   \<and> map fst (enqueued (returned crawl_fragment_cycle))
       = [''http://a.com/#top'', ''http://a.com/b'', ''http://a.com/'']
   \<and> normalize_url demo_env ''http://a.com/#top'' = Inr ''http://a.com/''
   \<and> normalize_url demo_env ''http://a.com/'' = Inr ''http://a.com/''
   \<and> \<not> distinct (map (normalize_url demo_env) (dispatched (returned crawl_fragment_cycle)))
   \<and> html_contents (returned crawl_fragment_cycle) ''http://a.com/#top'' = Some ''<a href=/b>b</a>''
   \<and> html_contents (returned crawl_fragment_cycle) ''http://a.com/'' = Some ''<a href=/b>b</a>''"
  by code_simp

text \<open>
  Claim C6. For \<^verbatim>\<open>max_depth\<close> \<open>\<ge> 0\<close>, in every state of a crawl and in the result it
  returns: every item ever enqueued has a depth between 0 and \<^verbatim>\<open>max_depth\<close>; the
  first one is the root at depth 0; a task that is expanding its page lies strictly
  below \<^verbatim>\<open>max_depth\<close>; and for \<^verbatim>\<open>max_depth = 0\<close> the root URL is the only
  possible key of \<^verbatim>\<open>html_contents\<close> and of \<^verbatim>\<open>errors\<close> and the only item ever
  enqueued.
\<close>

theorem depth_bounded_by_max_depth:
  assumes "0 \<le> max_depth a"
    and "crawl_state_after e a sched = Some s \<or> crawl e a sched = Some (Inr s)"
  shows "(\<forall>x \<in> set (enqueued s). 0 \<le> snd x \<and> snd x \<le> max_depth a)
    \<and> (enqueued s = [] \<or> hd (enqueued s) = (root_url a, 0))
    \<and> (\<forall>t \<in> set (active s). task_links t \<noteq> None \<longrightarrow> task_depth t < max_depth a)
    \<and> (max_depth a = 0 \<longrightarrow>
          (\<forall>u. html_contents s u \<noteq> None \<longrightarrow> u = root_url a)
        \<and> (\<forall>u. errors s u \<noteq> None \<longrightarrow> u = root_url a)
        \<and> (\<forall>x \<in> set (enqueued s). x = (root_url a, 0)))"
  using assms(2)
proof (cases rule: crawl_reach_cases)
  case (invalid_root p)
  then show ?thesis by (simp add: invalid_root_result_def)
next
  case (ran p s0)
  have "depth_inv a s0" by (rule depth_inv_run [OF assms(1) ran(4)])
  then have d: "depth_inv a s" using ran(5) by auto
  have r: "root_only_inv a s" if "max_depth a = 0"
  proof -
    have "root_only_inv a s0" using root_only_inv_run [OF _ ran(4)] that by simp
    then show ?thesis using ran(5) by auto
  qed
  show ?thesis
    using d r unfolding depth_inv_def root_only_inv_def by (auto)
qed

text \<open>
  The run \<open>crawl_root_only\<close>: with \<^verbatim>\<open>max_depth = 0\<close> the root page is stored and its
  link to \<^verbatim>\<open>/b\<close> is not followed.
\<close>

theorem depth_bounded_by_max_depth_witness:
  "completed crawl_root_only
   \<and> (0::int) \<le> max_depth (demo_args ''http://a.com/'' 0 False)
   \<and> enqueued (returned crawl_root_only) = [(''http://a.com/'', 0)]
   \<and> html_contents (returned crawl_root_only) ''http://a.com/'' = Some ''<a href=/b>b</a>''
   \<and> html_contents (returned crawl_root_only) ''http://a.com/b'' = None
   \<and> errors (returned crawl_root_only) ''http://a.com/b'' = None"
proof -
  have c: "completed crawl_root_only" by code_simp
  have m: "(0::int) \<le> max_depth (demo_args ''http://a.com/'' 0 False)"
    by (simp add: demo_args_def)
  have q: "enqueued (returned crawl_root_only) = [(''http://a.com/'', 0)]" by code_simp
  have h: "html_contents (returned crawl_root_only) ''http://a.com/'' = Some ''<a href=/b>b</a>''"
    by code_simp
  have "crawl demo_env (demo_args ''http://a.com/'' 0 False) [Dispatch, Advance 0]
      = Some (Inr (returned crawl_root_only))"
    using completedD [OF c] by (simp add: crawl_root_only_def)
  from depth_bounded_by_max_depth [OF m disjI2 [OF this]]
  have "html_contents (returned crawl_root_only) ''http://a.com/b'' = None"
    and "errors (returned crawl_root_only) ''http://a.com/b'' = None"
    by (auto simp: demo_args_def)
  then show ?thesis using c m q h by simp
qed

text \<open>
  Claim C7, as amended. For an anchor whose resolved URL has a path ending in
  \<^verbatim>\<open>.png\<close>, the pass of the link loop leaves the state as it is: nothing is
  enqueued and no entry is written to \<^verbatim>\<open>errors\<close>. And in no state of a crawl, nor
  in its result, has a task been created for that URL or a page been stored for it.
\<close>

theorem png_link_is_dropped:
  assumes "urljoin e url href = Inr absolute_link"
    and "urlparse e absolute_link = Inr parsed_link"
    and "endswith (path parsed_link) ''.png''"
  shows "process_link e bn rp url d href s = Inr s
    \<and> (crawl_state_after e a sched = Some s' \<or> crawl e a sched = Some (Inr s')
         \<longrightarrow> absolute_link \<notin> set (dispatched s') \<and> html_contents s' absolute_link = None)"
proof -
  have ext: "has_non_html_extension (lower (path parsed_link))"
    by (rule png_is_non_html [OF assms(3)])
  have 1: "process_link e bn rp url d href s = Inr s"
    using assms(1,2) ext by (simp add: process_link_def)
  have 2: "absolute_link \<notin> set (dispatched s') \<and> html_contents s' absolute_link = None"
    if "crawl_state_after e a sched = Some s' \<or> crawl e a sched = Some (Inr s')"
    using that
  proof (cases rule: crawl_reach_cases)
    case (invalid_root p)
    then show ?thesis by (simp add: invalid_root_result_def)
  next
    case (ran p s0)
    have "extension_inv e s0" by (rule extension_inv_run [OF ran(4)])
    then have "extension_inv e s'" using ran(5) by auto
    then show ?thesis
      using assms(2) ext unfolding extension_inv_def by (fastforce)
  qed
  show ?thesis using 1 2 by blast
qed

text \<open>The run \<open>crawl_image_link\<close>, whose root page links to \<^verbatim>\<open>/logo.png\<close>.\<close>

theorem png_link_is_dropped_witness:
  "completed crawl_image_link
   \<and> process_link demo_env ''a.com'' None ''http://a.com/img'' 0 ''/logo.png'' fetching_missing
       = Inr fetching_missing
   \<and> ''http://a.com/logo.png'' \<notin> set (dispatched (returned crawl_image_link))
   \<and> html_contents (returned crawl_image_link) ''http://a.com/logo.png'' = None"
proof -
  have c: "completed crawl_image_link" by code_simp
  have j: "urljoin demo_env ''http://a.com/img'' ''/logo.png'' = Inr ''http://a.com/logo.png''"
    by code_simp
  have p: "urlparse demo_env ''http://a.com/logo.png'' = Inr (demo_url ''/logo.png'' [])"
    by (simp add: demo_env_def demo_urlparse_def)
  have x: "endswith (path (demo_url ''/logo.png'' [])) ''.png''" by code_simp
  have "crawl demo_env (demo_args ''http://a.com/img'' 1 False)
       [Dispatch, Advance 0, Advance 0, Advance 0]
      = Some (Inr (returned crawl_image_link))"
    using completedD [OF c] by (simp add: crawl_image_link_def)
  then show ?thesis
    using c png_link_is_dropped [OF j p x, of "''a.com''" None 0 fetching_missing
        "demo_args ''http://a.com/img'' 1 False" "[Dispatch, Advance 0, Advance 0, Advance 0]"
        "returned crawl_image_link"]
    by simp
qed

text \<open>
  Claim C7 as stated fails on that run: the link to \<^verbatim>\<open>/logo.png\<close> is discovered on
  the stored root page, and the crawl ends with no entry in \<^verbatim>\<open>errors\<close> for it (nor
  for any other URL).
\<close>

theorem png_link_counterexample:
  "completed crawl_image_link
   \<and> html_contents (returned crawl_image_link) ''http://a.com/img'' = Some ''<a href=/logo.png>logo</a>''
   \<and> find_links demo_env ''<a href=/logo.png>logo</a>'' = Inr [''/logo.png'']
   \<and> urljoin demo_env ''http://a.com/img'' ''/logo.png'' = Inr ''http://a.com/logo.png''
   \<and> path (projr (urlparse demo_env ''http://a.com/logo.png'')) = ''/logo.png''
   \<and> errors (returned crawl_image_link) ''http://a.com/logo.png'' = None
   \<and> errors (returned crawl_image_link) ''http://a.com/img'' = None"
  by code_simp




text \<open>
  Claim C9, as amended. In every state of a crawl and in its result, every key of
  \<^verbatim>\<open>html_contents\<close> and of \<^verbatim>\<open>errors\<close>, every URL ever enqueued and every
  visited URL, other than the root URL as given, is a normalized link: the
  recomposition, with the fragment emptied, of a parsed URL on the crawl's host with
  scheme http or https.
\<close>

theorem keys_are_root_or_normalized_links:
  assumes "crawl_state_after e a sched = Some s \<or> crawl e a sched = Some (Inr s)"
    and "urlparse e (root_url a) = Inr p"
  shows "(\<forall>u. html_contents s u \<noteq> None \<longrightarrow> u = root_url a \<or> normalized_link e (netloc p) u)
    \<and> (\<forall>u. errors s u \<noteq> None \<longrightarrow> u = root_url a \<or> normalized_link e (netloc p) u)
    \<and> (\<forall>x \<in> set (enqueued s). fst x = root_url a \<or> normalized_link e (netloc p) (fst x))
    \<and> (\<forall>u \<in> crawled_urls s. u = root_url a \<or> normalized_link e (netloc p) u)"
  using assms(1)
proof (cases rule: crawl_reach_cases)
  case (invalid_root p')
  then show ?thesis by (simp add: invalid_root_result_def)
next
  case (ran p' s0)
  have pp: "p' = p" using ran(1) assms(2) by simp
  have "keys_inv e a (netloc p) s0" using keys_inv_run [OF ran(4)] pp by simp
  then have k: "keys_inv e a (netloc p) s" using ran(5) by auto
  have "dedup_inv s0" by (rule dedup_inv_run [OF ran(4)])
  then have "dedup_inv s" using ran(5) by auto
  then have c: "\<forall>u \<in> crawled_urls s. u \<in> fst ` set (enqueued s)"
    unfolding dedup_inv_def by blast
  show ?thesis
    using k c unfolding keys_inv_def by (auto)
qed

text \<open>
  The run \<open>crawl_one_level\<close>: the page \<^verbatim>\<open>/b\<close> found on the root page is stored
  under a normalized link.
\<close>

theorem keys_are_root_or_normalized_links_witness:
  "completed crawl_one_level
   \<and> html_contents (returned crawl_one_level) ''http://a.com/b'' = Some ''<a href=/ id=home>home</a>''
   \<and> normalized_link demo_env (netloc (demo_url ''/'' [])) ''http://a.com/b''"
proof -
  have c: "completed crawl_one_level" by code_simp
  have h: "html_contents (returned crawl_one_level) ''http://a.com/b'' = Some ''<a href=/ id=home>home</a>''"
    by code_simp
  have p: "urlparse demo_env (root_url (demo_args ''http://a.com/'' 1 False))
      = Inr (demo_url ''/'' [])"
    by (simp add: demo_env_def demo_urlparse_def demo_args_def)
  have "crawl demo_env (demo_args ''http://a.com/'' 1 False)
       [Dispatch, Advance 0, Advance 0, Advance 0, Dispatch, Advance 0]
      = Some (Inr (returned crawl_one_level))"
    using completedD [OF c] by (simp add: crawl_one_level_def)
  from keys_are_root_or_normalized_links [OF disjI2 [OF this] p]
  have "''http://a.com/b'' = root_url (demo_args ''http://a.com/'' 1 False)
      \<or> normalized_link demo_env (netloc (demo_url ''/'' [])) ''http://a.com/b''"
    using h by auto
  then show ?thesis using c h by (simp add: demo_args_def)
qed

text \<open>
  Claim C9 as stated fails for the root URL, which is used as a key as it is given:
  with its fragment in the run \<open>crawl_root_fragment\<close>, and without a scheme or a host
  in the run \<open>crawl_relative_root\<close>.
\<close>

theorem keys_counterexample:
  "completed crawl_root_fragment
   \<and> html_contents (returned crawl_root_fragment) ''http://a.com/#top'' = Some ''<a href=/b>b</a>''
   \<and> fragment (projr (urlparse demo_env ''http://a.com/#top'')) = ''top''
   \<and> \<not> absolute_without_fragment demo_env ''http://a.com/#top''
   \<and> completed crawl_relative_root
   \<and> errors (returned crawl_relative_root) ''a.com/page''
       = Some ''Invalid root_url: Must be absolute.''
   \<and> scheme (projr (urlparse demo_env ''a.com/page'')) = []
   \<and> \<not> absolute_without_fragment demo_env ''a.com/page''"
  by code_simp

text \<open>
  Claim C10. A reply of \<^verbatim>\<open>fetch_url_content\<close> that carries headers is the return of
  a response with a status below 400, so every fetch that returns a failure returns an
  empty header mapping; for such a reply \<^verbatim>\<open>process_single_url\<close> records the URL with
  \<open>Skipped: Not HTML (Content-Type: )\<close> and ends; and it writes an \<open>HTTP Error:\<close>
  entry only for a reply whose status is not 200 and whose Content-Type contains
  \<^verbatim>\<open>text/html\<close>.
\<close>

theorem failed_fetch_is_recorded_as_not_html:
  assumes "i < length (active s)" and "task_links (active s ! i) = None"
    and "url = task_url (active s ! i)"
    and "fetch_url_content (net e) url (user_agent a) (retry_limit a) (backoff_base_ms a)
           = Reply (st, c, h)"
  shows "(h \<noteq> Map.empty \<longrightarrow>
            (\<exists>n reason. net e url (user_agent a) n = Response st reason c h \<and> st < 400))
    \<and> (h = Map.empty \<longrightarrow>
          advance_task e a bn rp i s
            = finish_task i (s\<lparr>errors := (errors s)(url \<mapsto>
                ''Skipped: Not HTML (Content-Type: )'')\<rparr>))
    \<and> (\<forall>m. errors s url = None
            \<and> errors (advance_task e a bn rp i s) url = Some (''HTTP Error: '' @ m)
          \<longrightarrow> st \<noteq> 200
            \<and> str_in ''text/html''
                 (lower (case h ''Content-Type'' of None \<Rightarrow> [] | Some v \<Rightarrow> v)))"
proof -
  have adv: "advance_task e a bn rp i s = on_fetched e a i (active s ! i) (st, c, h) s"
    using assms by (simp add: advance_task_def Let_def)
  have 1: "\<exists>n reason. net e url (user_agent a) n = Response st reason c h \<and> st < 400"
    if "h \<noteq> Map.empty"
    using fetch_headers_from_response [OF assms(4) that] .
  have 2: "advance_task e a bn rp i s
            = finish_task i (s\<lparr>errors := (errors s)(url \<mapsto>
                ''Skipped: Not HTML (Content-Type: )'')\<rparr>)"
    if "h = Map.empty"
    using that assms(3) unfolding adv by (simp add: on_fetched_def lower_def)
  have 3: "st \<noteq> 200
            \<and> str_in ''text/html'' (lower (case h ''Content-Type'' of None \<Rightarrow> [] | Some v \<Rightarrow> v))"
    if "errors s url = None" "errors (advance_task e a bn rp i s) url = Some (''HTTP Error: '' @ m)"
    for m
  proof -
    let ?ct = "lower (case h ''Content-Type'' of None \<Rightarrow> [] | Some v \<Rightarrow> v)"
    show ?thesis
    proof (cases "str_in ''text/html'' ?ct")
      case False
      then show ?thesis
        using that(2) assms(3) unfolding adv
        by (simp add: on_fetched_def Let_def finish_task_def)
    next
      case html: True
      show ?thesis
      proof (cases "st = 200")
        case False
        then show ?thesis using html by simp
      next
        case True
        show ?thesis
        proof (cases "find_links e c")
          case (Inl ex)
          obtain nm msg where "ex = PyExn nm msg" by (cases ex) auto
          then show ?thesis
            using that assms(3) html True Inl unfolding adv
            by (simp add: on_fetched_def Let_def finish_task_def split: if_splits)
        next
          case (Inr hs)
          then show ?thesis
            using that assms(3) html True unfolding adv
            by (simp add: on_fetched_def Let_def finish_task_def split: if_splits)
        qed
      qed
    qed
  qed
  show ?thesis using 1 2 3 by simp
qed

text \<open>
  The state \<open>fetching_missing\<close>: the page answers 404, the fetch returns status 404
  with no headers, and the task records \<open>Skipped: Not HTML (Content-Type: )\<close>. The
  state \<open>fetching_accepted\<close>: the page answers 202 with an HTML body, and the task
  records an \<open>HTTP Error:\<close> entry.
\<close>

theorem failed_fetch_is_recorded_as_not_html_witness:
  "active fetching_missing
     = [\<lparr>task_url = ''http://a.com/missing'', task_depth = 0, task_links = None\<rparr>]
   \<and> fetch_url_content (net demo_env) ''http://a.com/missing'' ''DevBridgeBot/0.1'' 2 500
       = Reply (404, ''HTTP Error: 404 Not Found (for http://a.com/missing)'', Map.empty)
   \<and> errors (advance_task demo_env (demo_args ''http://a.com/missing'' 1 False) ''a.com'' None 0
        fetching_missing) ''http://a.com/missing''
       = Some ''Skipped: Not HTML (Content-Type: )''
   \<and> active fetching_accepted
     = [\<lparr>task_url = ''http://a.com/accepted'', task_depth = 0, task_links = None\<rparr>]
   \<and> fetch_url_content (net demo_env) ''http://a.com/accepted'' ''DevBridgeBot/0.1'' 2 500
       = Reply (202, ''<p>later</p>'', [''Content-Type'' \<mapsto> ''text/html''])
   \<and> errors (advance_task demo_env (demo_args ''http://a.com/accepted'' 1 False) ''a.com'' None 0
        fetching_accepted) ''http://a.com/accepted''
       = Some (''HTTP Error: '' @ ''202 - <p>later</p>'')
   \<and> (202::int) \<noteq> 200"
proof -
  let ?a = "demo_args ''http://a.com/missing'' 1 False"
  have act: "active fetching_missing
     = [\<lparr>task_url = ''http://a.com/missing'', task_depth = 0, task_links = None\<rparr>]"
    by code_simp
  have i: "0 < length (active fetching_missing)" using act by simp
  have l: "task_links (active fetching_missing ! 0) = None" using act by simp
  have u: "''http://a.com/missing'' = task_url (active fetching_missing ! 0)" using act by simp
  have s404: "str_int 404 = ''404''" by code_simp
  have re: "fetch_url_content (net demo_env) ''http://a.com/missing'' ''DevBridgeBot/0.1'' 2 500
       = Reply (404, ''HTTP Error: 404 Not Found (for http://a.com/missing)'', Map.empty)"
    by (simp add: fetch_url_content_def fetch_run_def demo_env_def demo_net_def demo_page_def
        upt_rec s404)
  have re': "fetch_url_content (net demo_env) ''http://a.com/missing'' (user_agent ?a)
       (retry_limit ?a) (backoff_base_ms ?a)
       = Reply (404, ''HTTP Error: 404 Not Found (for http://a.com/missing)'', Map.empty)"
    using re by (simp add: demo_args_def)
  from failed_fetch_is_recorded_as_not_html [OF i l u re', of "''a.com''" None]
  have "advance_task demo_env ?a ''a.com'' None 0 fetching_missing
            = finish_task 0 (fetching_missing\<lparr>errors := (errors fetching_missing)
                (''http://a.com/missing'' \<mapsto> ''Skipped: Not HTML (Content-Type: )'')\<rparr>)"
    by blast
  then have first: "errors (advance_task demo_env ?a ''a.com'' None 0 fetching_missing)
      ''http://a.com/missing'' = Some ''Skipped: Not HTML (Content-Type: )''"
    by (simp add: finish_task_def)
  let ?b = "demo_args ''http://a.com/accepted'' 1 False"
  have act': "active fetching_accepted
     = [\<lparr>task_url = ''http://a.com/accepted'', task_depth = 0, task_links = None\<rparr>]"
    by code_simp
  have i': "0 < length (active fetching_accepted)" using act' by simp
  have l': "task_links (active fetching_accepted ! 0) = None" using act' by simp
  have u': "''http://a.com/accepted'' = task_url (active fetching_accepted ! 0)"
    using act' by simp
  have none: "errors fetching_accepted ''http://a.com/accepted'' = None" by code_simp
  have written: "errors (advance_task demo_env ?b ''a.com'' None 0 fetching_accepted)
      ''http://a.com/accepted'' = Some (''HTTP Error: '' @ ''202 - <p>later</p>'')"
    by code_simp
  have ra: "fetch_url_content (net demo_env) ''http://a.com/accepted'' ''DevBridgeBot/0.1'' 2 500
       = Reply (202, ''<p>later</p>'', [''Content-Type'' \<mapsto> ''text/html''])"
    by (simp add: fetch_url_content_def fetch_run_def demo_env_def demo_net_def upt_rec)
  have ra': "fetch_url_content (net demo_env) ''http://a.com/accepted'' (user_agent ?b)
       (retry_limit ?b) (backoff_base_ms ?b)
       = Reply (202, ''<p>later</p>'', [''Content-Type'' \<mapsto> ''text/html''])"
    using ra by (simp add: demo_args_def)
  from failed_fetch_is_recorded_as_not_html [OF i' l' u' ra', of "''a.com''" None]
    none written
  have "(202::int) \<noteq> 200" by blast
  then show ?thesis using act re first act' ra written by simp
qed

end
